theory Spec2Isabelle
  imports Main "HOL-Library.Word"
begin

unbundle bit_operations_syntax

section \<open>Data model\<close>

text \<open>
  The payload is a Go \<^verbatim>\<open>[]byte\<close>. The fixed-width identifiers are \<^verbatim>\<open>[10]byte\<close> arrays,
  kept as byte lists (the decoder only ever stores ten bytes there). A \<^verbatim>\<open>time.Time\<close> is
  the instant it denotes, in nanoseconds since the Unix epoch; the location is immaterial
  because every use of a time in the program goes through \<^verbatim>\<open>UTC()\<close>.
\<close>

type_synonym byte = "8 word"
type_synonym int16 = "16 word"
type_synonym uint32 = "32 word"
type_synonym int64 = "64 word"

type_synonym Time = int

record Sample =
  id' :: "byte list"
  device :: "byte list"
  time :: Time
  per :: int16
  values' :: "int16 list"

section \<open>The decoder\<close>

text \<open>
  \<^verbatim>\<open>PanicIf\<close> turns every read error into a panic, and \<^verbatim>\<open>make\<close> panics on a negative
  length. A panic is the left summand of the decoder's result.
\<close>

datatype panic = EOF | ErrUnexpectedEOF | MakesliceLenOutOfRange

text \<open>
  \<^verbatim>\<open>binary.Read\<close> of a fixed-size value of \<open>n\<close> bytes from a \<^verbatim>\<open>bytes.Reader\<close>: the
  reader is the list of bytes not yet consumed. \<^verbatim>\<open>io.ReadFull\<close> reports \<^verbatim>\<open>io.EOF\<close> when
  no byte at all could be read and \<^verbatim>\<open>io.ErrUnexpectedEOF\<close> when the input ends inside the
  value.
\<close>

definition binary_Read :: "nat \<Rightarrow> byte list \<Rightarrow> panic + (byte list \<times> byte list)" where
  "binary_Read n buf =
     (if n \<le> length buf then Inr (take n buf, drop n buf)
      else if buf = [] then Inl EOF
      else Inl ErrUnexpectedEOF)"

text \<open>\<^verbatim>\<open>binary.LittleEndian\<close>: the least significant byte comes first.\<close>

definition Uint16 :: "byte list \<Rightarrow> 16 word" where
  "Uint16 b = ucast (b ! 0) OR push_bit 8 (ucast (b ! 1))"

definition Uint32 :: "byte list \<Rightarrow> uint32" where
  "Uint32 b = ucast (b ! 0) OR push_bit 8 (ucast (b ! 1))
              OR push_bit 16 (ucast (b ! 2)) OR push_bit 24 (ucast (b ! 3))"

text \<open>
  \<^verbatim>\<open>time.Unix(sec, nsec)\<close> with both arguments \<^verbatim>\<open>int64\<close>: the instant \<open>sec\<close> seconds and
  \<open>nsec\<close> nanoseconds after the epoch (\<open>nsec\<close> may lie outside \<open>[0, 10^9)\<close>).
\<close>

definition time_Unix :: "int64 \<Rightarrow> int64 \<Rightarrow> Time" where
  "time_Unix sec nsec = sint sec * 1000000000 + sint nsec"

text \<open>
  The inner loop \<^verbatim>\<open>for j = 0; j < nmeas; j++\<close> over a \<^verbatim>\<open>byte\<close> counter. The slice
  \<^verbatim>\<open>values\<close> is allocated with \<open>nmeas\<close> entries and entry \<open>j\<close> is assigned in the
  \<open>j\<close>-th iteration; the model builds the same slice by appending, in the same order.
\<close>

function read_values ::
  "byte \<Rightarrow> byte \<Rightarrow> byte list \<Rightarrow> int16 list \<Rightarrow> panic + (int16 list \<times> byte list)" where
  "read_values j nmeas buf vs =
     (if j < nmeas then
        (case binary_Read 2 buf of
           Inl err \<Rightarrow> Inl err
         | Inr (b, buf') \<Rightarrow> read_values (j + 1) nmeas buf' (vs @ [Uint16 b]))
      else Inr (vs, buf))"
  by pat_completeness auto
termination
proof (relation "measure (\<lambda>(j, nmeas, buf, vs). unat nmeas - unat j)")
  show "wf (measure (\<lambda>(j, nmeas, buf, vs). unat nmeas - unat j))" by simp
next
  fix j nmeas :: byte and buf :: "byte list" and vs :: "int16 list"
    and x :: "byte list \<times> byte list" and b buf' :: "byte list"
  assume lt: "j < nmeas"
  have "j + 1 \<noteq> 0"
  proof
    assume "j + 1 = 0"
    then have "j = - 1" by (simp add: eq_neg_iff_add_eq_0)
    with lt show False by simp
  qed
  then have "unat (j + 1) = Suc (unat j)" by (simp add: unatSuc add.commute)
  moreover from lt have "unat j < unat nmeas" by (simp add: word_less_nat_alt)
  ultimately show "((j + 1, nmeas, buf', vs @ [Uint16 b]), (j, nmeas, buf, vs))
      \<in> measure (\<lambda>(j, nmeas, buf, vs). unat nmeas - unat j)"
    by simp
qed

declare read_values.simps [simp del]

text \<open>
  The outer loop \<^verbatim>\<open>for i = 0; i < nsamp; i++\<close> over an \<^verbatim>\<open>int16\<close> counter (a signed
  comparison). The product \<^verbatim>\<open>per*i\<close> is an \<^verbatim>\<open>int16\<close> product and wraps at 16 bits before it
  is widened to \<^verbatim>\<open>int64\<close>.
\<close>

function read_samples ::
  "int16 \<Rightarrow> int16 \<Rightarrow> byte list \<Rightarrow> byte list \<Rightarrow> uint32 \<Rightarrow> uint32 \<Rightarrow> int16 \<Rightarrow> byte
     \<Rightarrow> byte list \<Rightarrow> Sample list \<Rightarrow> panic + Sample list" where
  "read_samples i nsamp ident dev t1 t2 p nmeas buf samples =
     (if i <s nsamp then
        (case read_values 0 nmeas buf [] of
           Inl err \<Rightarrow> Inl err
         | Inr (vs, buf') \<Rightarrow>
             read_samples (i + 1) nsamp ident dev t1 t2 p nmeas buf'
               (samples @ [\<lparr>id' = ident, device = dev,
                            time = time_Unix (ucast t1) ((ucast t2 + scast (p * i)) * 1000000),
                            per = p, values' = vs\<rparr>]))
      else Inr samples)"
  by pat_completeness auto
termination
proof (relation "measure (\<lambda>(i, nsamp, ident, dev, t1, t2, p, nmeas, buf, samples).
                    nat (sint nsamp - sint i))")
  show "wf (measure (\<lambda>(i, nsamp, ident, dev, t1, t2, p, nmeas, buf, samples).
                    nat (sint nsamp - sint i)))" by simp
next
  fix i nsamp :: int16 and ident dev :: "byte list" and t1 t2 :: uint32 and p :: int16
    and nmeas :: byte and buf :: "byte list" and samples :: "Sample list"
    and x :: "int16 list \<times> byte list" and vs :: "int16 list" and buf' :: "byte list"
  assume "i <s nsamp"
  then have lt: "sint i < sint nsamp" by (simp add: word_sless_alt)
  have "sint nsamp < 2 ^ 15" using sint_lt [of nsamp] by simp
  moreover have "- (2 ^ 15) \<le> sint i" using sint_ge [of i] by simp
  ultimately have "sint (i + 1) = sint i + 1"
    using lt by (simp add: sint_word_ariths signed_take_bit_int_eq_self)
  with lt show "((i + 1, nsamp, ident, dev, t1, t2, p, nmeas, buf',
        samples @ [\<lparr>id' = ident, device = dev,
                     time = time_Unix (ucast t1) ((ucast t2 + scast (p * i)) * 1000000),
                     per = p, values' = vs\<rparr>]),
       (i, nsamp, ident, dev, t1, t2, p, nmeas, buf, samples))
      \<in> measure (\<lambda>(i, nsamp, ident, dev, t1, t2, p, nmeas, buf, samples).
                    nat (sint nsamp - sint i))"
    by simp
qed

declare read_samples.simps [simp del]

text \<open>
  \<^verbatim>\<open>decodeV0\<close>: the seven header fields in order, the allocation of the sample slice
  (a panic when \<open>nsamp\<close> is negative), then the two nested loops.
\<close>

definition decodeV0 :: "byte list \<Rightarrow> panic + Sample list" where
  "decodeV0 body =
     (case binary_Read 10 body of Inl err \<Rightarrow> Inl err | Inr (ident, buf1) \<Rightarrow>
     (case binary_Read 10 buf1 of Inl err \<Rightarrow> Inl err | Inr (dev, buf2) \<Rightarrow>
     (case binary_Read 4 buf2 of Inl err \<Rightarrow> Inl err | Inr (b1, buf3) \<Rightarrow>
     (case binary_Read 4 buf3 of Inl err \<Rightarrow> Inl err | Inr (b2, buf4) \<Rightarrow>
     (case binary_Read 2 buf4 of Inl err \<Rightarrow> Inl err | Inr (bp, buf5) \<Rightarrow>
     (case binary_Read 2 buf5 of Inl err \<Rightarrow> Inl err | Inr (bn, buf6) \<Rightarrow>
     (case binary_Read 1 buf6 of Inl err \<Rightarrow> Inl err | Inr (bm, buf7) \<Rightarrow>
        (let t1 = Uint32 b1; t2 = Uint32 b2; p = Uint16 bp; nsamp = Uint16 bn; nmeas = bm ! 0
         in if nsamp <s 0 then Inl MakesliceLenOutOfRange
            else read_samples 0 nsamp ident dev t1 t2 p nmeas buf7 []))))))))"

section \<open>Calendar time and number formatting\<close>

text \<open>
  The parts of the Go library the writer calls, modelled from their documented behaviour.
  \<^verbatim>\<open>Time.UTC()\<close> keeps the instant and sets the location to UTC; the accessors below read
  the proleptic Gregorian calendar in UTC, as \<^verbatim>\<open>package time\<close> does.
\<close>

definition UTC :: "Time \<Rightarrow> Time" where
  "UTC t = t"

definition unix_seconds :: "Time \<Rightarrow> int" where
  "unix_seconds t = t div 1000000000"

definition Nanosecond :: "Time \<Rightarrow> int" where
  "Nanosecond t = t mod 1000000000"

definition Hour :: "Time \<Rightarrow> int" where
  "Hour t = (unix_seconds t mod 86400) div 3600"

definition Minute :: "Time \<Rightarrow> int" where
  "Minute t = (unix_seconds t mod 3600) div 60"

definition Second :: "Time \<Rightarrow> int" where
  "Second t = unix_seconds t mod 60"

text \<open>Year, month and day of the day number \<open>z\<close> (days since 1970-01-01).\<close>

definition civil_from_days :: "int \<Rightarrow> int \<times> int \<times> int" where
  "civil_from_days z0 =
     (let z = z0 + 719468;
          era = z div 146097;
          doe = z mod 146097;
          yoe = (doe - doe div 1460 + doe div 36524 - doe div 146096) div 365;
          doy = doe - (365 * yoe + yoe div 4 - yoe div 100);
          mp = (5 * doy + 2) div 153;
          d = doy - (153 * mp + 2) div 5 + 1;
          m = (if mp < 10 then mp + 3 else mp - 9);
          y = yoe + era * 400 + (if m \<le> 2 then 1 else 0)
      in (y, m, d))"

definition Year :: "Time \<Rightarrow> int" where
  "Year t = fst (civil_from_days (unix_seconds t div 86400))"

definition Month :: "Time \<Rightarrow> int" where
  "Month t = fst (snd (civil_from_days (unix_seconds t div 86400)))"

definition Day :: "Time \<Rightarrow> int" where
  "Day t = snd (snd (civil_from_days (unix_seconds t div 86400)))"

definition digit :: "int \<Rightarrow> char" where
  "digit d = ''0123456789'' ! nat d"

text \<open>The decimal digits of a number that is not negative.\<close>

function decimal :: "int \<Rightarrow> string" where
  "decimal n = (if n < 10 then [digit n] else decimal (n div 10) @ [digit (n mod 10)])"
  by pat_completeness auto
termination
  by (relation "measure nat") auto

declare decimal.simps [simp del]

text \<open>\<^verbatim>\<open>strconv.Itoa\<close>, which is also what the verb \<^verbatim>\<open>%d\<close> prints.\<close>

definition Itoa :: "int \<Rightarrow> string" where
  "Itoa n = (if n < 0 then CHR ''-'' # decimal (- n) else decimal n)"

definition zero_pad :: "nat \<Rightarrow> string \<Rightarrow> string" where
  "zero_pad width s = replicate (width - length s) CHR ''0'' @ s"

text \<open>
  \<^verbatim>\<open>appendInt\<close> of \<^verbatim>\<open>package time\<close>: a sign for a negative number, then the digits padded
  with zeros to the width. The verb \<^verbatim>\<open>%02d\<close> pads to two characters, the sign included.
\<close>

definition appendInt :: "int \<Rightarrow> nat \<Rightarrow> string" where
  "appendInt x width =
     (if x < 0 then CHR ''-'' # zero_pad width (decimal (- x))
      else zero_pad width (decimal x))"

definition Sprintf_02d :: "int \<Rightarrow> string" where
  "Sprintf_02d x =
     (if x < 0 then CHR ''-'' # zero_pad 1 (decimal (- x))
      else zero_pad 2 (decimal x))"

text \<open>The layout \<^verbatim>\<open>"2006/01/02"\<close>.\<close>

definition Format_2006_01_02 :: "Time \<Rightarrow> string" where
  "Format_2006_01_02 t =
     appendInt (Year t) 4 @ ''/'' @ appendInt (Month t) 2 @ ''/'' @ appendInt (Day t) 2"

text \<open>
  The layout \<^verbatim>\<open>time.RFC3339Nano\<close> for a time in UTC: the fraction of a second is printed
  with its trailing zeros removed, and not at all when it is zero; the zone is \<^verbatim>\<open>Z\<close>.
\<close>

definition appendNano :: "int \<Rightarrow> string" where
  "appendNano ns =
     (let ds = rev (dropWhile (\<lambda>c. c = CHR ''0'') (rev (zero_pad 9 (decimal ns))))
      in if ds = [] then [] else CHR ''.'' # ds)"

definition Format_RFC3339Nano :: "Time \<Rightarrow> string" where
  "Format_RFC3339Nano t =
     appendInt (Year t) 4 @ ''-'' @ appendInt (Month t) 2 @ ''-'' @ appendInt (Day t) 2 @ ''T''
     @ appendInt (Hour t) 2 @ '':'' @ appendInt (Minute t) 2 @ '':'' @ appendInt (Second t) 2
     @ appendNano (Nanosecond t) @ ''Z''"

text \<open>The conversion \<^verbatim>\<open>string(b[:])\<close> of a byte array: the same bytes, as text.\<close>

definition string_of_bytes :: "byte list \<Rightarrow> string" where
  "string_of_bytes b = map (\<lambda>x. char_of (unat x)) b"

section \<open>Rows and header\<close>

definition row :: "Sample \<Rightarrow> string list" where
  "row sample =
     [string_of_bytes (id' sample), string_of_bytes (device sample),
      Format_RFC3339Nano (UTC (time sample)), Itoa (sint (per sample))]
     @ map (\<lambda>v. Itoa (sint v)) (values' sample)"

definition header :: "Sample \<Rightarrow> string list" where
  "header sample =
     [''account'', ''device'', ''time'', ''period'']
     @ map (\<lambda>k. CHR ''A'' # Itoa (int k)) [0..<length (values' sample)]"

section \<open>Paths\<close>

text \<open>\<^verbatim>\<open>strings.Join\<close> and the splitting of a path at its separators.\<close>

fun strings_Join :: "string list \<Rightarrow> string \<Rightarrow> string" where
  "strings_Join [] sep = []"
| "strings_Join [a] sep = a"
| "strings_Join (a # b # r) sep = a @ sep @ strings_Join (b # r) sep"

fun split_path :: "string \<Rightarrow> string list" where
  "split_path [] = [[]]"
| "split_path (c # cs) =
     (if c = CHR ''/'' then [] # split_path cs
      else (case split_path cs of [] \<Rightarrow> [[c]] | e # es \<Rightarrow> (c # e) # es))"

text \<open>
  \<^verbatim>\<open>filepath.Clean\<close> on a Unix system: empty and \<^verbatim>\<open>.\<close> elements are dropped, a \<^verbatim>\<open>..\<close>
  removes the element before it, is dropped at the root and is kept at the start of a
  relative path; the empty result is \<^verbatim>\<open>.\<close>. The second argument of \<open>clean_elems\<close> is
  the output so far, last element first.
\<close>

fun clean_elems :: "bool \<Rightarrow> string list \<Rightarrow> string list \<Rightarrow> string list" where
  "clean_elems rooted out [] = rev out"
| "clean_elems rooted out (e # es) =
     (if e = [] \<or> e = ''.'' then clean_elems rooted out es
      else if e = ''..'' then
        (case out of
           [] \<Rightarrow> if rooted then clean_elems rooted out es else clean_elems rooted [''..''] es
         | x # xs \<Rightarrow> if x = ''..'' then clean_elems rooted (''..'' # out) es
                    else clean_elems rooted xs es)
      else clean_elems rooted (e # out) es)"

definition Clean :: "string \<Rightarrow> string" where
  "Clean path =
     (let rooted = (path \<noteq> [] \<and> hd path = CHR ''/'');
          r = (if rooted then ''/'' else []) @ strings_Join (clean_elems rooted [] (split_path path)) ''/''
      in if r = [] then ''.'' else r)"

text \<open>\<^verbatim>\<open>filepath.Join\<close>: leading empty elements are skipped, the rest is joined and cleaned.\<close>

fun filepath_Join :: "string list \<Rightarrow> string" where
  "filepath_Join [] = []"
| "filepath_Join (e # es) =
     (if e \<noteq> [] then Clean (strings_Join (e # es) ''/'') else filepath_Join es)"

text \<open>\<^verbatim>\<open>filepath.Dir\<close>: everything up to the last separator, cleaned.\<close>

definition filepath_Dir :: "string \<Rightarrow> string" where
  "filepath_Dir path = Clean (rev (dropWhile (\<lambda>c. c \<noteq> CHR ''/'') (rev path)))"

text \<open>The destination of a batch, lines 199 to 201 of \<^verbatim>\<open>writeToFileV0\<close>, for its first record.\<close>

definition dest_path :: "string \<Rightarrow> Sample \<Rightarrow> string" where
  "dest_path dir s =
     (let t = UTC (time s);
          fn = Sprintf_02d (Hour t) @ ''-'' @ string_of_bytes (device s) @ ''.dat''
      in filepath_Join [dir, string_of_bytes (id' s), Format_2006_01_02 t, fn])"

section \<open>The file system and buffered output\<close>

text \<open>
  The writer's environment. Directories that exist, the contents of the files, and what
  the operating system will refuse: \<open>mkdir_fault\<close>, \<open>open_fault\<close> and \<open>stat_fault\<close> say
  for which paths the respective call fails (whatever the reason), and \<open>capacity\<close> is the
  number of bytes the device still accepts, a write beyond it being cut short and
  reported as an error. No assumption is made about when these failures occur.
\<close>

datatype error = PathError string string

record world =
  dirs :: "string set"
  files :: "string \<rightharpoonup> string"
  mkdir_fault :: "string \<Rightarrow> bool"
  open_fault :: "string \<Rightarrow> bool"
  stat_fault :: "string \<Rightarrow> bool"
  capacity :: nat

definition os_Mkdir :: "string \<Rightarrow> world \<Rightarrow> error option \<times> world" where
  "os_Mkdir path w =
     (if mkdir_fault w path then (Some (PathError ''mkdir'' path), w)
      else (None, w\<lparr>dirs := insert path (dirs w)\<rparr>))"

text \<open>
  \<^verbatim>\<open>os.MkdirAll\<close> of a cleaned path: nothing to do when the directory exists; otherwise the
  parent is made first and then the directory itself. \<open>dir_chain\<close> lists the path and
  its ancestors, the longest first.
\<close>

definition dir_chain :: "string \<Rightarrow> string list" where
  "dir_chain path =
     [take k path. k \<leftarrow> rev [1..<Suc (length path)], k = length path \<or> path ! k = CHR ''/'']"

fun mkdir_chain :: "string list \<Rightarrow> world \<Rightarrow> error option \<times> world" where
  "mkdir_chain [] w = (None, w)"
| "mkdir_chain (p # parents) w =
     (if p \<in> dirs w then (None, w)
      else (case mkdir_chain parents w of
              (Some e, w') \<Rightarrow> (Some e, w')
            | (None, w') \<Rightarrow> os_Mkdir p w'))"

definition os_MkdirAll :: "string \<Rightarrow> world \<Rightarrow> error option \<times> world" where
  "os_MkdirAll path w = mkdir_chain (dir_chain path) w"

text \<open>
  \<^verbatim>\<open>os.OpenFile\<close> with \<^verbatim>\<open>O_CREATE|O_APPEND|O_WRONLY\<close>: an absent file is created empty, an
  existing one is left as it is. The open file is named by its path.
\<close>

definition os_OpenFile :: "string \<Rightarrow> world \<Rightarrow> (error + string) \<times> world" where
  "os_OpenFile path w =
     (if open_fault w path then (Inl (PathError ''open'' path), w)
      else (Inr path, (case files w path of
                         None \<Rightarrow> w\<lparr>files := (files w)(path \<mapsto> [])\<rparr>
                       | Some c \<Rightarrow> w)))"

text \<open>\<^verbatim>\<open>file.Stat()\<close> followed by \<^verbatim>\<open>Size()\<close>.\<close>

definition file_Stat_Size :: "string \<Rightarrow> world \<Rightarrow> error + nat" where
  "file_Stat_Size f w =
     (if stat_fault w f then Inl (PathError ''stat'' f)
      else (case files w f of None \<Rightarrow> Inl (PathError ''stat'' f) | Some c \<Rightarrow> Inr (length c)))"

text \<open>
  \<^verbatim>\<open>file.Write\<close> on a file opened for appending: the bytes go to the end of the file. It
  returns the number of bytes written and an error when that is not all of them.
\<close>

definition file_Write :: "string \<Rightarrow> string \<Rightarrow> world \<Rightarrow> (nat \<times> error option) \<times> world" where
  "file_Write f b w =
     (let n = min (length b) (capacity w);
          old = (case files w f of None \<Rightarrow> [] | Some c \<Rightarrow> c)
      in ((n, if n < length b then Some (PathError ''write'' f) else None),
          w\<lparr>files := (files w)(f \<mapsto> old @ take n b), capacity := capacity w - n\<rparr>))"

text \<open>
  \<^verbatim>\<open>bufio.Writer\<close>, which \<^verbatim>\<open>csv.NewWriter\<close> puts around the file: a buffer of 4096 bytes
  and a sticky error. \<^verbatim>\<open>Flush\<close> writes the buffer out; what a failed write did not take
  stays in the buffer. Its return value is the error field afterwards.
\<close>

record bufio_Writer =
  wr :: string
  buf :: string
  err :: "error option"

definition bufio_NewWriter :: "string \<Rightarrow> bufio_Writer" where
  "bufio_NewWriter f = \<lparr>wr = f, buf = [], err = None\<rparr>"

definition bufio_Flush :: "bufio_Writer \<Rightarrow> world \<Rightarrow> bufio_Writer \<times> world" where
  "bufio_Flush b w =
     (if err b \<noteq> None then (b, w)
      else if buf b = [] then (b, w)
      else (case file_Write (wr b) (buf b) w of
              ((n, Some e), w') \<Rightarrow> (b\<lparr>buf := drop n (buf b), err := Some e\<rparr>, w')
            | ((n, None), w') \<Rightarrow> (b\<lparr>buf := []\<rparr>, w')))"

text \<open>\<^verbatim>\<open>WriteByte\<close>: a full buffer is flushed first; nothing is stored once an error is set.\<close>

definition bufio_WriteByte :: "char \<Rightarrow> bufio_Writer \<times> world \<Rightarrow> bufio_Writer \<times> world" where
  "bufio_WriteByte c bw =
     (case bw of (b, w) \<Rightarrow>
        if err b \<noteq> None then (b, w)
        else (case (if 4096 \<le> length (buf b) then bufio_Flush b w else (b, w)) of
                (b1, w1) \<Rightarrow> if err b1 \<noteq> None then (b1, w1)
                            else (b1\<lparr>buf := buf b1 @ [c]\<rparr>, w1)))"

text \<open>
  \<^verbatim>\<open>WriteString\<close> of a string shorter than the buffer: it copies what fits, flushes when
  more is left, and copies the rest. Buffer, file and error afterwards are those of
  writing the bytes one at a time.
\<close>

definition bufio_WriteString :: "string \<Rightarrow> bufio_Writer \<times> world \<Rightarrow> bufio_Writer \<times> world" where
  "bufio_WriteString s bw = fold bufio_WriteByte s bw"

section \<open>Delimited text\<close>

text \<open>
  \<^verbatim>\<open>encoding/csv\<close> with its default settings (comma, no CRLF). A field is quoted when it
  holds a comma, a quote or a line break, when it is \<^verbatim>\<open>\.\<close>, or when its first rune is a
  space in the sense of \<^verbatim>\<open>unicode.IsSpace\<close>; inside quotes a quote is doubled.
\<close>

definition first_rune_IsSpace :: "string \<Rightarrow> bool" where
  "first_rune_IsSpace field =
     (take 1 field \<in> {[CHR 0x09], [CHR 0x0A], [CHR 0x0B], [CHR 0x0C], [CHR 0x0D], [CHR 0x20]}
      \<or> take 2 field \<in> {[CHR 0xC2, CHR 0x85], [CHR 0xC2, CHR 0xA0]}
      \<or> take 3 field \<in> {[CHR 0xE1, CHR 0x9A, CHR 0x80], [CHR 0xE2, CHR 0x80, CHR 0x80],
           [CHR 0xE2, CHR 0x80, CHR 0x81], [CHR 0xE2, CHR 0x80, CHR 0x82],
           [CHR 0xE2, CHR 0x80, CHR 0x83], [CHR 0xE2, CHR 0x80, CHR 0x84],
           [CHR 0xE2, CHR 0x80, CHR 0x85], [CHR 0xE2, CHR 0x80, CHR 0x86],
           [CHR 0xE2, CHR 0x80, CHR 0x87], [CHR 0xE2, CHR 0x80, CHR 0x88],
           [CHR 0xE2, CHR 0x80, CHR 0x89], [CHR 0xE2, CHR 0x80, CHR 0x8A],
           [CHR 0xE2, CHR 0x80, CHR 0xA8], [CHR 0xE2, CHR 0x80, CHR 0xA9],
           [CHR 0xE2, CHR 0x80, CHR 0xAF], [CHR 0xE2, CHR 0x81, CHR 0x9F],
           [CHR 0xE3, CHR 0x80, CHR 0x80]})"

definition fieldNeedsQuotes :: "string \<Rightarrow> bool" where
  "fieldNeedsQuotes field =
     (if field = [] then False
      else if field = [CHR 0x5C, CHR ''.''] then True
      else if CHR 0x0A \<in> set field \<or> CHR 0x0D \<in> set field \<or> CHR 0x22 \<in> set field
              \<or> CHR '','' \<in> set field then True
      else first_rune_IsSpace field)"

definition csv_field :: "string \<Rightarrow> string" where
  "csv_field field =
     (if fieldNeedsQuotes field
      then [CHR 0x22] @ concat (map (\<lambda>c. if c = CHR 0x22 then [CHR 0x22, CHR 0x22] else [c]) field)
           @ [CHR 0x22]
      else field)"

definition csv_line :: "string list \<Rightarrow> string" where
  "csv_line record = strings_Join (map csv_field record) '','' @ [CHR 0x0A]"

text \<open>
  \<^verbatim>\<open>csv.Writer.Write\<close> sends the bytes of the line to the buffered writer piece by piece
  and returns the first error; since the buffered writer ignores everything after an
  error, that is the error field once the whole line has been sent.
\<close>

definition csv_Write ::
  "string list \<Rightarrow> bufio_Writer \<times> world \<Rightarrow> error option \<times> bufio_Writer \<times> world" where
  "csv_Write record bw =
     (case bufio_WriteString (csv_line record) bw of (b', w') \<Rightarrow> (err b', b', w'))"

section \<open>The writer\<close>

text \<open>The loop \<^verbatim>\<open>for _, v := range samples\<close>, which returns at the first failed row.\<close>

fun write_rows ::
  "Sample list \<Rightarrow> bufio_Writer \<times> world \<Rightarrow> error option \<times> bufio_Writer \<times> world" where
  "write_rows [] bw = (None, bw)"
| "write_rows (v # vs) bw =
     (case csv_Write (row v) bw of
        (Some e, bw') \<Rightarrow> (Some e, bw')
      | (None, bw') \<Rightarrow> write_rows vs bw')"

text \<open>
  \<^verbatim>\<open>writeToFileV0\<close>. The result of \<^verbatim>\<open>writer.Flush()\<close> is not looked at: after the loop the
  function returns \<^verbatim>\<open>nil\<close>.
\<close>

definition writeToFileV0 :: "Sample list \<Rightarrow> string \<Rightarrow> world \<Rightarrow> error option \<times> world" where
  "writeToFileV0 samples dir w =
     (if length samples = 0 then (None, w)
      else
        (let path = dest_path dir (samples ! 0) in
         case os_MkdirAll (filepath_Dir path) w of
           (Some e, w1) \<Rightarrow> (Some e, w1)
         | (None, w1) \<Rightarrow>
             (case os_OpenFile path w1 of
                (Inl e, w2) \<Rightarrow> (Some e, w2)
              | (Inr file, w2) \<Rightarrow>
                  (let writer = bufio_NewWriter file in
                   case file_Stat_Size file w2 of
                     Inl e \<Rightarrow> (Some e, w2)
                   | Inr fi_Size \<Rightarrow>
                       (case (if fi_Size = 0 then csv_Write (header (samples ! 0)) (writer, w2)
                              else (None, writer, w2)) of
                          (Some e, bw3) \<Rightarrow> (Some e, snd bw3)
                        | (None, bw3) \<Rightarrow>
                            (case write_rows samples bw3 of
                               (Some e, bw4) \<Rightarrow> (Some e, snd bw4)
                             | (None, bw4) \<Rightarrow> (None, snd (bufio_Flush (fst bw4) (snd bw4)))))))))"

section \<open>What the claims speak about\<close>

text \<open>
  The two counts of the header as the decoder reads them (bytes 30 and 31, and byte 32),
  and the sample values of a payload laid out row by row: \<open>channel_values c bs\<close> are
  the first \<open>c\<close> little-endian 16-bit values of \<open>bs\<close>, and \<open>sample_rows n c bs\<close>
  are \<open>n\<close> consecutive such rows.
\<close>

definition sample_count :: "byte list \<Rightarrow> int16" where
  "sample_count body = Uint16 (take 2 (drop 30 body))"

definition channel_count :: "byte list \<Rightarrow> byte" where
  "channel_count body = body ! 32"

definition channel_values :: "nat \<Rightarrow> byte list \<Rightarrow> int16 list" where
  "channel_values c bs = map (\<lambda>j. Uint16 (take 2 (drop (2 * j) bs))) [0..<c]"

definition sample_rows :: "nat \<Rightarrow> nat \<Rightarrow> byte list \<Rightarrow> int16 list list" where
  "sample_rows n c bs = map (\<lambda>k. channel_values c (drop (2 * c * k) bs)) [0..<n]"

text \<open>
  The failure the specification calls \<^verbatim>\<open>MalformedPayload\<close> is the panic that \<^verbatim>\<open>PanicIf\<close>
  raises from one of the two read errors.
\<close>

definition MalformedPayload :: "panic \<Rightarrow> bool" where
  "MalformedPayload e = (e = EOF \<or> e = ErrUnexpectedEOF)"

text \<open>
  The contents of a file (empty when it does not exist), the encoded rows of a batch, and
  the bytes a call of \<^verbatim>\<open>writeToFileV0\<close> sends to the destination file when nothing
  fails: the header line if the file is empty, then the rows.
\<close>

definition content :: "world \<Rightarrow> string \<Rightarrow> string" where
  "content w f = (case files w f of None \<Rightarrow> [] | Some c \<Rightarrow> c)"

definition rows_bytes :: "Sample list \<Rightarrow> string" where
  "rows_bytes samples = concat (map (\<lambda>v. csv_line (row v)) samples)"

definition batch_bytes :: "world \<Rightarrow> string \<Rightarrow> Sample list \<Rightarrow> string" where
  "batch_bytes w dir samples =
     (if content w (dest_path dir (hd samples)) = [] then csv_line (header (hd samples)) else [])
     @ rows_bytes samples"

text \<open>
  \<open>no_faults w path\<close>: the operating system refuses none of the calls made for
  \<open>path\<close>. \<open>same_env\<close>: two worlds refuse the same calls. \<open>appended f w w'\<close>:
  \<open>w'\<close> differs from \<open>w\<close> at most by bytes added at the end of file \<open>f\<close>.
\<close>

definition no_faults :: "world \<Rightarrow> string \<Rightarrow> bool" where
  "no_faults w path =
     ((\<forall>d \<in> set (dir_chain (filepath_Dir path)). \<not> mkdir_fault w d)
      \<and> \<not> open_fault w path \<and> \<not> stat_fault w path)"

definition same_env :: "world \<Rightarrow> world \<Rightarrow> bool" where
  "same_env w w' =
     (mkdir_fault w' = mkdir_fault w \<and> open_fault w' = open_fault w \<and> stat_fault w' = stat_fault w)"

definition appended :: "string \<Rightarrow> world \<Rightarrow> world \<Rightarrow> bool" where
  "appended f w w' =
     ((\<forall>q. q \<noteq> f \<longrightarrow> files w' q = files w q) \<and> (\<exists>x. content w' f = content w f @ x)
      \<and> same_env w w')"

text \<open>
  For the buffered writer, \<open>ready bw n\<close> says that \<open>n\<close> more bytes can be written
  without an error (no error so far, room on the device for the buffer and these bytes,
  the file exists), and \<open>wrote s bw bw'\<close> that the bytes \<open>s\<close> have been added, without
  error, to what the buffer and the file hold together.
\<close>

definition ready :: "bufio_Writer \<times> world \<Rightarrow> nat \<Rightarrow> bool" where
  "ready bw n =
     (err (fst bw) = None \<and> length (buf (fst bw)) + n \<le> capacity (snd bw)
      \<and> files (snd bw) (wr (fst bw)) \<noteq> None)"

definition wrote :: "string \<Rightarrow> bufio_Writer \<times> world \<Rightarrow> bufio_Writer \<times> world \<Rightarrow> bool" where
  "wrote s bw bw' =
     (err (fst bw') = None \<and> wr (fst bw') = wr (fst bw)
      \<and> content (snd bw') (wr (fst bw)) @ buf (fst bw') = content (snd bw) (wr (fst bw)) @ buf (fst bw) @ s
      \<and> capacity (snd bw') + length (buf (fst bw)) + length s = capacity (snd bw) + length (buf (fst bw'))
      \<and> files (snd bw') (wr (fst bw)) \<noteq> None
      \<and> (\<forall>q. q \<noteq> wr (fst bw) \<longrightarrow> files (snd bw') q = files (snd bw) q))"

subsection \<open>Concrete inputs\<close>

text \<open>
  The example of the specification: account \<^verbatim>\<open>ABCDEFGHIJ\<close>, device \<^verbatim>\<open>aBK23o#OP@\<close> (the
  identifiers of the source's comment), \<open>t1 = 1394413060\<close>, \<open>t2 = 0\<close>, period 1000,
  two samples of two channels. The header takes 33 bytes, the values 8.
\<close>

definition example_payload :: "byte list" where
  "example_payload =
     [65, 66, 67, 68, 69, 70, 71, 72, 73, 74,  97, 66, 75, 50, 51, 111, 35, 79, 80, 64,
      4, 14, 29, 83,  0, 0, 0, 0,  232, 3,  2, 0,  2,  10, 0, 20, 0,  30, 0, 40, 0]"

text \<open>
  Variations of the example: a complete header that declares five samples of one channel
  and no value bytes (33 bytes in all); a header that declares three samples of two
  channels followed by a single byte; a header whose sample count is \<open>-1\<close>, followed by
  four more bytes; and a header that declares 34 samples of no channel.
\<close>

definition header_only_payload :: "byte list" where
  "header_only_payload =
     [65, 66, 67, 68, 69, 70, 71, 72, 73, 74,  97, 66, 75, 50, 51, 111, 35, 79, 80, 64,
      4, 14, 29, 83,  0, 0, 0, 0,  232, 3,  5, 0,  1]"

definition truncated_payload :: "byte list" where
  "truncated_payload =
     [65, 66, 67, 68, 69, 70, 71, 72, 73, 74,  97, 66, 75, 50, 51, 111, 35, 79, 80, 64,
      4, 14, 29, 83,  0, 0, 0, 0,  232, 3,  3, 0,  2,  10]"

definition negative_count_payload :: "byte list" where
  "negative_count_payload =
     [65, 66, 67, 68, 69, 70, 71, 72, 73, 74,  97, 66, 75, 50, 51, 111, 35, 79, 80, 64,
      4, 14, 29, 83,  0, 0, 0, 0,  232, 3,  255, 255,  2,  10, 0, 20, 0]"

definition overflow_payload :: "byte list" where
  "overflow_payload =
     [65, 66, 67, 68, 69, 70, 71, 72, 73, 74,  97, 66, 75, 50, 51, 111, 35, 79, 80, 64,
      4, 14, 29, 83,  0, 0, 0, 0,  232, 3,  34, 0,  0]"

text \<open>
  The two records the example payload decodes to, a third record of the same account
  and device one hour later, and the paths of the files of these two hours below the
  data directory \<^verbatim>\<open>data\<close>.
\<close>

definition example_record0 :: Sample where
  "example_record0 =
     \<lparr>id' = [65, 66, 67, 68, 69, 70, 71, 72, 73, 74],
      device = [97, 66, 75, 50, 51, 111, 35, 79, 80, 64],
      time = 1394413060000000000, per = 1000, values' = [10, 20]\<rparr>"

definition example_record1 :: Sample where
  "example_record1 =
     \<lparr>id' = [65, 66, 67, 68, 69, 70, 71, 72, 73, 74],
      device = [97, 66, 75, 50, 51, 111, 35, 79, 80, 64],
      time = 1394413061000000000, per = 1000, values' = [30, 40]\<rparr>"

definition late_record :: Sample where
  "late_record =
     \<lparr>id' = [65, 66, 67, 68, 69, 70, 71, 72, 73, 74],
      device = [97, 66, 75, 50, 51, 111, 35, 79, 80, 64],
      time = 1394416660000000000, per = 1000, values' = [50, 60]\<rparr>"

definition example_path :: string where
  "example_path = ''data/ABCDEFGHIJ/2014/03/10/00-aBK23o#OP@.dat''"

definition late_path :: string where
  "late_path = ''data/ABCDEFGHIJ/2014/03/10/01-aBK23o#OP@.dat''"

text \<open>
  A world in which only the data directory exists, nothing is refused and the device
  accepts \<open>cap\<close> more bytes; and one in which the file of the example already holds
  a header line.
\<close>

definition fresh_world :: "nat \<Rightarrow> world" where
  "fresh_world cap =
     \<lparr>dirs = {''data''}, files = Map.empty, mkdir_fault = (\<lambda>d. False),
      open_fault = (\<lambda>p. False), stat_fault = (\<lambda>p. False), capacity = cap\<rparr>"

definition existing_world :: world where
  "existing_world =
     (fresh_world 4096)\<lparr>files := [example_path \<mapsto> ''account,device,time,period,A0,A1\<newline>'']\<rparr>"

section \<open>The decoder: loops and header\<close>

subsection \<open>Counters\<close>

lemma byte_succ: "(j::byte) < n \<Longrightarrow> unat (j + 1) = Suc (unat j)"
proof -
  assume lt: "j < n"
  have "j + 1 \<noteq> 0"
  proof
    assume "j + 1 = 0"
    then have "j = - 1" by (simp add: eq_neg_iff_add_eq_0)
    with lt show False by simp
  qed
  then show ?thesis by (simp add: unatSuc add.commute)
qed

lemma int16_succ: "(i::int16) <s n \<Longrightarrow> sint (i + 1) = sint i + 1"
proof -
  assume "i <s n"
  then have lt: "sint i < sint n" by (simp add: word_sless_alt)
  have "sint n < 2 ^ 15" using sint_lt [of n] by simp
  moreover have "- (2 ^ 15) \<le> sint i" using sint_ge [of i] by simp
  ultimately show ?thesis
    using lt by (simp add: sint_word_ariths signed_take_bit_int_eq_self)
qed

subsection \<open>The inner loop\<close>

lemma channel_values_Suc:
  "channel_values (Suc n) bs = Uint16 (take 2 bs) # channel_values n (drop 2 bs)"
proof -
  have "[0..<Suc n] = 0 # map Suc [0..<n]"
    by (simp add: upt_rec [of 0 "Suc n"] map_Suc_upt del: upt_Suc)
  then show ?thesis
    by (simp add: channel_values_def comp_def add.commute del: upt_Suc)
qed

lemma channel_values_nth:
  "j < c \<Longrightarrow> channel_values c bs ! j = Uint16 (take 2 (drop (2 * j) bs))"
  by (simp add: channel_values_def)

lemma read_values_ok:
  "unat nmeas - unat j = n \<Longrightarrow> unat j \<le> unat nmeas \<Longrightarrow> 2 * n \<le> length bs \<Longrightarrow>
   read_values j nmeas bs vs = Inr (vs @ channel_values n bs, drop (2 * n) bs)"
proof (induction n arbitrary: j bs vs)
  case 0
  then have "\<not> j < nmeas" by (simp add: word_less_nat_alt)
  then show ?case by (simp add: read_values.simps channel_values_def)
next
  case (Suc n)
  then have lt: "j < nmeas" by (simp add: word_less_nat_alt)
  have s: "unat (j + 1) = Suc (unat j)" by (rule byte_succ [OF lt])
  from Suc.prems have len: "2 \<le> length bs" by simp
  have rd: "binary_Read 2 bs = Inr (take 2 bs, drop 2 bs)"
    using len by (simp add: binary_Read_def)
  have ih: "read_values (j + 1) nmeas (drop 2 bs) (vs @ [Uint16 (take 2 bs)])
      = Inr ((vs @ [Uint16 (take 2 bs)]) @ channel_values n (drop 2 bs), drop (2 * n) (drop 2 bs))"
    using Suc.prems s by (intro Suc.IH) auto
  show ?case
    using lt rd ih by (subst read_values.simps) (simp add: channel_values_Suc add.commute)
qed

lemma read_values_short:
  "unat nmeas - unat j = n \<Longrightarrow> length bs < 2 * n \<Longrightarrow>
   read_values j nmeas bs vs = Inl EOF \<or> read_values j nmeas bs vs = Inl ErrUnexpectedEOF"
proof (induction n arbitrary: j bs vs)
  case 0
  then show ?case by simp
next
  case (Suc n)
  then have lt: "j < nmeas" by (simp add: word_less_nat_alt)
  have s: "unat (j + 1) = Suc (unat j)" by (rule byte_succ [OF lt])
  show ?case
  proof (cases "2 \<le> length bs")
    case True
    then have rd: "binary_Read 2 bs = Inr (take 2 bs, drop 2 bs)"
      by (simp add: binary_Read_def)
    have "read_values (j + 1) nmeas (drop 2 bs) (vs @ [Uint16 (take 2 bs)]) = Inl EOF
       \<or> read_values (j + 1) nmeas (drop 2 bs) (vs @ [Uint16 (take 2 bs)]) = Inl ErrUnexpectedEOF"
      using Suc.prems s True by (intro Suc.IH) auto
    then show ?thesis using lt rd by (subst (1 2) read_values.simps) simp
  next
    case False
    then have "binary_Read 2 bs = Inl EOF \<or> binary_Read 2 bs = Inl ErrUnexpectedEOF"
      by (simp add: binary_Read_def)
    then show ?thesis using lt by (subst (1 2) read_values.simps) auto
  qed
qed

subsection \<open>The outer loop\<close>

lemma sample_rows_Suc:
  "sample_rows (Suc n) c bs = channel_values c bs # sample_rows n c (drop (2 * c) bs)"
proof -
  have "[0..<Suc n] = 0 # map Suc [0..<n]"
    by (simp add: upt_rec [of 0 "Suc n"] map_Suc_upt del: upt_Suc)
  then show ?thesis
    by (simp add: sample_rows_def comp_def add.commute del: upt_Suc)
qed

lemma sample_rows_nth:
  "i < n \<Longrightarrow> sample_rows n c bs ! i = channel_values c (drop (2 * c * i) bs)"
  by (simp add: sample_rows_def)

lemma read_samples_ok:
  "nat (sint nsamp - sint i) = n \<Longrightarrow> sint i \<le> sint nsamp \<Longrightarrow> 2 * unat nmeas * n \<le> length bs \<Longrightarrow>
   \<exists>recs. read_samples i nsamp ident dev t1 t2 p nmeas bs samples = Inr (samples @ recs)
         \<and> map values' recs = sample_rows n (unat nmeas) bs"
proof (induction n arbitrary: i bs samples)
  case 0
  then have "\<not> i <s nsamp" by (simp add: word_sless_alt)
  then show ?case by (simp add: read_samples.simps sample_rows_def)
next
  case (Suc n)
  then have lt: "i <s nsamp" by (simp add: word_sless_alt)
  have s: "sint (i + 1) = sint i + 1" by (rule int16_succ [OF lt])
  let ?c = "unat nmeas"
  from Suc.prems have len: "2 * ?c \<le> length bs" by simp
  have rv: "read_values 0 nmeas bs [] = Inr (channel_values ?c bs, drop (2 * ?c) bs)"
    using read_values_ok [of nmeas 0 ?c bs "[]"] len by simp
  let ?r = "\<lparr>id' = ident, device = dev,
             time = time_Unix (ucast t1) ((ucast t2 + scast (p * i)) * 1000000),
             per = p, values' = channel_values ?c bs\<rparr>"
  have "\<exists>recs. read_samples (i + 1) nsamp ident dev t1 t2 p nmeas (drop (2 * ?c) bs) (samples @ [?r])
            = Inr ((samples @ [?r]) @ recs)
          \<and> map values' recs = sample_rows n ?c (drop (2 * ?c) bs)"
    using Suc.prems s by (intro Suc.IH) (auto simp: algebra_simps)
  then obtain recs where
    r: "read_samples (i + 1) nsamp ident dev t1 t2 p nmeas (drop (2 * ?c) bs) (samples @ [?r])
          = Inr ((samples @ [?r]) @ recs)"
    and v: "map values' recs = sample_rows n ?c (drop (2 * ?c) bs)" by blast
  have "read_samples i nsamp ident dev t1 t2 p nmeas bs samples = Inr (samples @ (?r # recs))"
    using lt rv r by (subst read_samples.simps) simp
  moreover have "map values' (?r # recs) = sample_rows (Suc n) ?c bs"
    using v by (simp add: sample_rows_Suc)
  ultimately show ?case by blast
qed

lemma read_samples_short:
  "nat (sint nsamp - sint i) = n \<Longrightarrow> length bs < 2 * unat nmeas * n \<Longrightarrow>
   read_samples i nsamp ident dev t1 t2 p nmeas bs samples = Inl EOF
   \<or> read_samples i nsamp ident dev t1 t2 p nmeas bs samples = Inl ErrUnexpectedEOF"
proof (induction n arbitrary: i bs samples)
  case 0
  then show ?case by simp
next
  case (Suc n)
  then have lt: "i <s nsamp" by (simp add: word_sless_alt)
  have s: "sint (i + 1) = sint i + 1" by (rule int16_succ [OF lt])
  let ?c = "unat nmeas"
  show ?case
  proof (cases "2 * ?c \<le> length bs")
    case True
    have rv: "read_values 0 nmeas bs [] = Inr (channel_values ?c bs, drop (2 * ?c) bs)"
      using read_values_ok [of nmeas 0 ?c bs "[]"] True by simp
    let ?r = "\<lparr>id' = ident, device = dev,
               time = time_Unix (ucast t1) ((ucast t2 + scast (p * i)) * 1000000),
               per = p, values' = channel_values ?c bs\<rparr>"
    have "read_samples (i + 1) nsamp ident dev t1 t2 p nmeas (drop (2 * ?c) bs) (samples @ [?r]) = Inl EOF
        \<or> read_samples (i + 1) nsamp ident dev t1 t2 p nmeas (drop (2 * ?c) bs) (samples @ [?r]) = Inl ErrUnexpectedEOF"
      using Suc.prems s True by (intro Suc.IH) (auto simp: algebra_simps)
    then show ?thesis using lt rv by (subst (1 2) read_samples.simps) simp
  next
    case False
    then have "read_values 0 nmeas bs [] = Inl EOF \<or> read_values 0 nmeas bs [] = Inl ErrUnexpectedEOF"
      using read_values_short [of nmeas 0 ?c bs "[]"] by simp
    then show ?thesis using lt by (subst (1 2) read_samples.simps) auto
  qed
qed

subsection \<open>The header\<close>

lemma binary_Read_ok: "n \<le> length bs \<Longrightarrow> binary_Read n bs = Inr (take n bs, drop n bs)"
  by (simp add: binary_Read_def)

lemma binary_Read_short:
  "length bs < n \<Longrightarrow> binary_Read n bs = Inl EOF \<or> binary_Read n bs = Inl ErrUnexpectedEOF"
  by (simp add: binary_Read_def)

lemma decodeV0_header:
  assumes "33 \<le> length body"
  shows "decodeV0 body =
     (if sample_count body <s 0 then Inl MakesliceLenOutOfRange
      else read_samples 0 (sample_count body) (take 10 body) (take 10 (drop 10 body))
             (Uint32 (take 4 (drop 20 body))) (Uint32 (take 4 (drop 24 body)))
             (Uint16 (take 2 (drop 28 body))) (channel_count body) (drop 33 body) [])"
proof -
  have r1: "binary_Read 10 body = Inr (take 10 body, drop 10 body)"
    using assms by (simp add: binary_Read_ok)
  have r2: "binary_Read 10 (drop 10 body) = Inr (take 10 (drop 10 body), drop 20 body)"
    using assms by (simp add: binary_Read_ok)
  have r3: "binary_Read 4 (drop 20 body) = Inr (take 4 (drop 20 body), drop 24 body)"
    using assms by (simp add: binary_Read_ok)
  have r4: "binary_Read 4 (drop 24 body) = Inr (take 4 (drop 24 body), drop 28 body)"
    using assms by (simp add: binary_Read_ok)
  have r5: "binary_Read 2 (drop 28 body) = Inr (take 2 (drop 28 body), drop 30 body)"
    using assms by (simp add: binary_Read_ok)
  have r6: "binary_Read 2 (drop 30 body) = Inr (take 2 (drop 30 body), drop 32 body)"
    using assms by (simp add: binary_Read_ok)
  have r7: "binary_Read (Suc 0) (drop 32 body) = Inr (take 1 (drop 32 body), drop 33 body)"
    using assms by (simp add: binary_Read_ok)
  have m: "drop 32 body ! 0 = body ! 32"
    using assms by simp
  show ?thesis
    by (simp add: decodeV0_def r1 r2 r3 r4 r5 r6 r7 Let_def sample_count_def channel_count_def m)
qed

lemma decodeV0_truncated:
  assumes "length body < 33"
  shows "decodeV0 body = Inl EOF \<or> decodeV0 body = Inl ErrUnexpectedEOF"
proof -
  consider "length body < 10" | "10 \<le> length body" "length body < 20"
    | "20 \<le> length body" "length body < 24" | "24 \<le> length body" "length body < 28"
    | "28 \<le> length body" "length body < 30" | "30 \<le> length body" "length body < 32"
    | "32 \<le> length body" "length body < 33"
    using assms by linarith
  then show ?thesis
  proof cases
    case 1
    then have "binary_Read 10 body = Inl EOF \<or> binary_Read 10 body = Inl ErrUnexpectedEOF"
      by (simp add: binary_Read_short)
    then show ?thesis by (auto simp add: decodeV0_def)
  next
    case 2
    then have r1: "binary_Read 10 body = Inr (take 10 body, drop 10 body)"
      by (simp add: binary_Read_ok)
    from 2 have "binary_Read 10 (drop 10 body) = Inl EOF
        \<or> binary_Read 10 (drop 10 body) = Inl ErrUnexpectedEOF"
      by (intro binary_Read_short) simp
    then show ?thesis by (auto simp add: decodeV0_def r1)
  next
    case 3
    then have r1: "binary_Read 10 body = Inr (take 10 body, drop 10 body)"
      and r2: "binary_Read 10 (drop 10 body) = Inr (take 10 (drop 10 body), drop 20 body)"
      by (simp_all add: binary_Read_ok)
    from 3 have "binary_Read 4 (drop 20 body) = Inl EOF
        \<or> binary_Read 4 (drop 20 body) = Inl ErrUnexpectedEOF"
      by (intro binary_Read_short) simp
    then show ?thesis by (auto simp add: decodeV0_def r1 r2)
  next
    case 4
    then have r1: "binary_Read 10 body = Inr (take 10 body, drop 10 body)"
      and r2: "binary_Read 10 (drop 10 body) = Inr (take 10 (drop 10 body), drop 20 body)"
      and r3: "binary_Read 4 (drop 20 body) = Inr (take 4 (drop 20 body), drop 24 body)"
      by (simp_all add: binary_Read_ok)
    from 4 have "binary_Read 4 (drop 24 body) = Inl EOF
        \<or> binary_Read 4 (drop 24 body) = Inl ErrUnexpectedEOF"
      by (intro binary_Read_short) simp
    then show ?thesis by (auto simp add: decodeV0_def r1 r2 r3)
  next
    case 5
    then have r1: "binary_Read 10 body = Inr (take 10 body, drop 10 body)"
      and r2: "binary_Read 10 (drop 10 body) = Inr (take 10 (drop 10 body), drop 20 body)"
      and r3: "binary_Read 4 (drop 20 body) = Inr (take 4 (drop 20 body), drop 24 body)"
      and r4: "binary_Read 4 (drop 24 body) = Inr (take 4 (drop 24 body), drop 28 body)"
      by (simp_all add: binary_Read_ok)
    from 5 have "binary_Read 2 (drop 28 body) = Inl EOF
        \<or> binary_Read 2 (drop 28 body) = Inl ErrUnexpectedEOF"
      by (intro binary_Read_short) simp
    then show ?thesis by (auto simp add: decodeV0_def r1 r2 r3 r4)
  next
    case 6
    then have r1: "binary_Read 10 body = Inr (take 10 body, drop 10 body)"
      and r2: "binary_Read 10 (drop 10 body) = Inr (take 10 (drop 10 body), drop 20 body)"
      and r3: "binary_Read 4 (drop 20 body) = Inr (take 4 (drop 20 body), drop 24 body)"
      and r4: "binary_Read 4 (drop 24 body) = Inr (take 4 (drop 24 body), drop 28 body)"
      and r5: "binary_Read 2 (drop 28 body) = Inr (take 2 (drop 28 body), drop 30 body)"
      by (simp_all add: binary_Read_ok)
    from 6 have "binary_Read 2 (drop 30 body) = Inl EOF
        \<or> binary_Read 2 (drop 30 body) = Inl ErrUnexpectedEOF"
      by (intro binary_Read_short) simp
    then show ?thesis by (auto simp add: decodeV0_def r1 r2 r3 r4 r5)
  next
    case 7
    then have r1: "binary_Read 10 body = Inr (take 10 body, drop 10 body)"
      and r2: "binary_Read 10 (drop 10 body) = Inr (take 10 (drop 10 body), drop 20 body)"
      and r3: "binary_Read 4 (drop 20 body) = Inr (take 4 (drop 20 body), drop 24 body)"
      and r4: "binary_Read 4 (drop 24 body) = Inr (take 4 (drop 24 body), drop 28 body)"
      and r5: "binary_Read 2 (drop 28 body) = Inr (take 2 (drop 28 body), drop 30 body)"
      and r6: "binary_Read 2 (drop 30 body) = Inr (take 2 (drop 30 body), drop 32 body)"
      by (simp_all add: binary_Read_ok)
    from 7 have "binary_Read (Suc 0) (drop 32 body) = Inl EOF
        \<or> binary_Read (Suc 0) (drop 32 body) = Inl ErrUnexpectedEOF"
      by (intro binary_Read_short) simp
    then show ?thesis by (auto simp add: decodeV0_def r1 r2 r3 r4 r5 r6)
  qed
qed

lemma decodeV0_short:
  assumes "length body < 33 \<or> int (length body) < 33 + sint (sample_count body) * int (unat (channel_count body)) * 2"
  shows "decodeV0 body = Inl EOF \<or> decodeV0 body = Inl ErrUnexpectedEOF"
proof (cases "length body < 33")
  case True
  then show ?thesis by (rule decodeV0_truncated)
next
  case False
  then have h: "33 \<le> length body" by simp
  let ?n = "sint (sample_count body)"
  let ?c = "unat (channel_count body)"
  from assms False have lt: "int (length body) < 33 + ?n * int ?c * 2" by simp
  have pos: "0 < ?n"
  proof (rule ccontr)
    assume "\<not> 0 < ?n"
    then have "?n * int ?c \<le> 0" by (simp add: mult_nonpos_nonneg)
    with lt h show False by simp
  qed
  then have notneg: "\<not> sample_count body <s 0" by (simp add: word_sless_alt)
  have n: "int (nat ?n) = ?n" using pos by simp
  have e: "int (33 + 2 * ?c * nat ?n) = 33 + ?n * int ?c * 2"
    unfolding of_nat_add of_nat_mult n by simp
  have "int (length body) < int (33 + 2 * ?c * nat ?n)"
    using lt e by (simp only:)
  then have "length body < 33 + 2 * ?c * nat ?n"
    by (simp only: of_nat_less_iff)
  then have "length (drop 33 body) < 2 * ?c * nat ?n" using h by simp
  then have "read_samples 0 (sample_count body) (take 10 body) (take 10 (drop 10 body))
          (Uint32 (take 4 (drop 20 body))) (Uint32 (take 4 (drop 24 body)))
          (Uint16 (take 2 (drop 28 body))) (channel_count body) (drop 33 body) [] = Inl EOF
     \<or> read_samples 0 (sample_count body) (take 10 body) (take 10 (drop 10 body))
          (Uint32 (take 4 (drop 20 body))) (Uint32 (take 4 (drop 24 body)))
          (Uint16 (take 2 (drop 28 body))) (channel_count body) (drop 33 body) [] = Inl ErrUnexpectedEOF"
    by (intro read_samples_short [where n = "nat ?n"]) simp_all
  then show ?thesis using decodeV0_header [OF h] notneg by simp
qed

lemma Uint16_at:
  "Suc k < length body \<Longrightarrow> Uint16 (take 2 (drop k body)) = Uint16 [body ! k, body ! Suc k]"
  by (simp add: Uint16_def)

lemma example_payload_fields:
  "sint (sample_count example_payload) = 2" "unat (channel_count example_payload) = 2"
  "length example_payload = 41"
  by (simp_all add: sample_count_def channel_count_def example_payload_def Uint16_def)

section \<open>The writer: what the file holds afterwards\<close>

subsection \<open>Only the destination file changes, and only at its end\<close>

lemma appended_refl: "appended f w w"
  by (simp add: appended_def same_env_def)

lemma appended_trans: "appended f w w1 \<Longrightarrow> appended f w1 w2 \<Longrightarrow> appended f w w2"
  by (auto simp add: appended_def same_env_def)

lemma appended_files:
  assumes "appended p w w'" and "files w p = Some old" and "old \<noteq> []"
  shows "\<exists>x. files w' p = Some (old @ x)"
proof -
  from assms obtain x where x: "content w' p = old @ x"
    by (auto simp add: appended_def content_def)
  with assms(3) have "content w' p \<noteq> []" by simp
  then have "files w' p = Some (content w' p)"
    by (auto simp add: content_def split: option.splits)
  with x show ?thesis by simp
qed

lemma no_faults_same_env: "same_env w w' \<Longrightarrow> no_faults w' p = no_faults w p"
  by (simp add: no_faults_def same_env_def)

lemma file_Write_appended: "appended f w (snd (file_Write f b w))"
  by (simp add: file_Write_def appended_def content_def Let_def same_env_def)

lemma bufio_Flush_appended:
  "appended (wr b) w (snd (bufio_Flush b w)) \<and> wr (fst (bufio_Flush b w)) = wr b"
proof -
  obtain n e w' where fw: "file_Write (wr b) (buf b) w = ((n, e), w')"
    by (metis prod.exhaust)
  then have "appended (wr b) w w'"
    using file_Write_appended [of "wr b" w "buf b"] by simp
  then show ?thesis
    by (cases e) (simp_all add: bufio_Flush_def fw appended_refl)
qed

lemma bufio_WriteByte_appended:
  "appended (wr (fst bw)) (snd bw) (snd (bufio_WriteByte c bw))
   \<and> wr (fst (bufio_WriteByte c bw)) = wr (fst bw)"
proof -
  obtain b w where bw: "bw = (b, w)" by (cases bw)
  obtain b1 w1 where fl: "bufio_Flush b w = (b1, w1)" by (cases "bufio_Flush b w")
  have "appended (wr b) w w1 \<and> wr b1 = wr b"
    using bufio_Flush_appended [of b w] fl by simp
  then show ?thesis
    by (simp add: bw bufio_WriteByte_def fl appended_refl)
qed

lemma bufio_WriteString_appended:
  "appended (wr (fst bw)) (snd bw) (snd (bufio_WriteString s bw))
   \<and> wr (fst (bufio_WriteString s bw)) = wr (fst bw)"
proof (induction s arbitrary: bw)
  case Nil
  then show ?case by (simp add: bufio_WriteString_def appended_refl)
next
  case (Cons c s)
  have e: "bufio_WriteString (c # s) bw = bufio_WriteString s (bufio_WriteByte c bw)"
    by (simp add: bufio_WriteString_def)
  show ?case
    unfolding e
    using Cons.IH [of "bufio_WriteByte c bw"] bufio_WriteByte_appended [of bw c]
    by (auto intro: appended_trans)
qed

lemma csv_Write_appended:
  "appended (wr (fst bw)) (snd bw) (snd (snd (csv_Write r bw)))
   \<and> wr (fst (snd (csv_Write r bw))) = wr (fst bw)"
  using bufio_WriteString_appended [of bw "csv_line r"]
  by (auto simp add: csv_Write_def split: prod.split)

lemma write_rows_appended:
  "appended (wr (fst bw)) (snd bw) (snd (snd (write_rows vs bw)))
   \<and> wr (fst (snd (write_rows vs bw))) = wr (fst bw)"
proof (induction vs arbitrary: bw)
  case Nil
  then show ?case by (simp add: appended_refl)
next
  case (Cons v vs)
  obtain e bw' where c: "csv_Write (row v) bw = (e, bw')" by (cases "csv_Write (row v) bw")
  have a: "appended (wr (fst bw)) (snd bw) (snd bw') \<and> wr (fst bw') = wr (fst bw)"
    using csv_Write_appended [of bw "row v"] c by simp
  show ?case
  proof (cases e)
    case None
    then show ?thesis
      using c a Cons.IH [of bw'] by (auto intro: appended_trans)
  next
    case (Some x)
    then show ?thesis using c a by simp
  qed
qed

lemma os_Mkdir_files:
  "files (snd (os_Mkdir d w)) = files w \<and> capacity (snd (os_Mkdir d w)) = capacity w
   \<and> same_env w (snd (os_Mkdir d w))"
  by (simp add: os_Mkdir_def same_env_def)

lemma mkdir_chain_files:
  "files (snd (mkdir_chain ds w)) = files w \<and> capacity (snd (mkdir_chain ds w)) = capacity w
   \<and> same_env w (snd (mkdir_chain ds w))"
proof (induction ds arbitrary: w)
  case Nil
  then show ?case by (simp add: same_env_def)
next
  case (Cons d ds)
  obtain e w1 where m: "mkdir_chain ds w = (e, w1)" by (cases "mkdir_chain ds w")
  have i: "files w1 = files w \<and> capacity w1 = capacity w \<and> same_env w w1"
    using Cons.IH [of w] m by simp
  show ?case
  proof (cases "d \<in> dirs w")
    case True
    then show ?thesis by (simp add: same_env_def)
  next
    case False
    show ?thesis
    proof (cases e)
      case None
      then show ?thesis
        using False m i os_Mkdir_files [of d w1] by (auto simp add: same_env_def)
    next
      case (Some x)
      then show ?thesis using False m i by simp
    qed
  qed
qed

lemma mkdir_chain_ok:
  "\<forall>d \<in> set ds. \<not> mkdir_fault w d \<Longrightarrow> fst (mkdir_chain ds w) = None"
proof (induction ds arbitrary: w)
  case Nil
  then show ?case by simp
next
  case (Cons d ds)
  obtain e w1 where m: "mkdir_chain ds w = (e, w1)" by (cases "mkdir_chain ds w")
  have e: "e = None" using Cons.IH [of w] Cons.prems m by simp
  have "same_env w w1" using mkdir_chain_files [of ds w] m by simp
  then have "\<not> mkdir_fault w1 d" using Cons.prems by (simp add: same_env_def)
  then show ?case using m e by (simp add: os_Mkdir_def)
qed

lemma os_MkdirAll_appended: "appended f w (snd (os_MkdirAll d w))"
  using mkdir_chain_files [of "dir_chain d" w]
  by (simp add: os_MkdirAll_def appended_def content_def)

lemma os_OpenFile_appended: "appended p w (snd (os_OpenFile p w))"
  by (simp add: os_OpenFile_def appended_def content_def same_env_def split: option.split)

lemma writeToFileV0_appended:
  "appended (dest_path dir s) w (snd (writeToFileV0 (s # rest) dir w))"
proof -
  let ?p = "dest_path dir s"
  obtain e1 w1 where m: "os_MkdirAll (filepath_Dir ?p) w = (e1, w1)"
    by (cases "os_MkdirAll (filepath_Dir ?p) w")
  have a1: "appended ?p w w1" using os_MkdirAll_appended [of ?p w "filepath_Dir ?p"] m by simp
  show ?thesis
  proof (cases e1)
    case (Some x)
    then show ?thesis using m a1 by (simp add: writeToFileV0_def Let_def)
  next
    case None
    obtain r2 w2 where opn: "os_OpenFile ?p w1 = (r2, w2)" by (cases "os_OpenFile ?p w1")
    have a2: "appended ?p w w2"
      using os_OpenFile_appended [of ?p w1] opn a1 by (auto intro: appended_trans)
    show ?thesis
    proof (cases r2)
      case (Inl x)
      then show ?thesis using m None opn a2 by (simp add: writeToFileV0_def Let_def)
    next
      case (Inr fl)
      have fl: "fl = ?p" using opn Inr by (simp add: os_OpenFile_def split: if_splits)
      show ?thesis
      proof (cases "file_Stat_Size ?p w2")
        case (Inl x)
        then show ?thesis using m None opn Inr fl a2 by (simp add: writeToFileV0_def Let_def)
      next
        case st: (Inr sz)
        obtain e3 bw3 where h:
          "(if sz = 0 then csv_Write (header ((s # rest) ! 0)) (bufio_NewWriter ?p, w2)
            else (None, bufio_NewWriter ?p, w2)) = (e3, bw3)"
          by (metis prod.exhaust)
        have a3: "appended ?p w2 (snd bw3) \<and> wr (fst bw3) = ?p"
        proof (cases "sz = 0")
          case True
          then show ?thesis
            using h csv_Write_appended [of "(bufio_NewWriter ?p, w2)" "header s"]
            by (simp add: bufio_NewWriter_def)
        next
          case False
          then show ?thesis using h by (auto simp add: bufio_NewWriter_def appended_refl)
        qed
        show ?thesis
        proof (cases e3)
          case (Some x)
          then show ?thesis
            using m None opn Inr fl st h a2 a3
            by (auto simp add: writeToFileV0_def Let_def intro: appended_trans)
        next
          case e3: None
          obtain e4 bw4 where wrr: "write_rows (s # rest) bw3 = (e4, bw4)"
            by (cases "write_rows (s # rest) bw3")
          have a4: "appended ?p (snd bw3) (snd bw4) \<and> wr (fst bw4) = ?p"
            using write_rows_appended [of bw3 "s # rest"] wrr a3 by simp
          have a5: "appended ?p (snd bw4) (snd (bufio_Flush (fst bw4) (snd bw4)))"
            using bufio_Flush_appended [of "fst bw4" "snd bw4"] a4 by simp
          have a24: "appended ?p w (snd bw4)"
            using a2 a3 a4 by (blast intro: appended_trans)
          show ?thesis
          proof (cases e4)
            case (Some x)
            then show ?thesis
              using m None opn Inr fl st h e3 wrr a24
              by (simp add: writeToFileV0_def Let_def)
          next
            case e4: None
            have "appended ?p w (snd (bufio_Flush (fst bw4) (snd bw4)))"
              using a24 a5 by (rule appended_trans)
            then show ?thesis
              using m None opn Inr fl st h e3 wrr e4
              by (simp add: writeToFileV0_def Let_def)
          qed
        qed
      qed
    qed
  qed
qed

subsection \<open>When nothing fails\<close>

lemma ready_wrote:
  "ready bw (length s + m) \<Longrightarrow> wrote s bw bw' \<Longrightarrow> ready bw' m"
  by (auto simp add: ready_def wrote_def)

lemma wrote_trans:
  "wrote s bw bw1 \<Longrightarrow> wrote t bw1 bw2 \<Longrightarrow> wrote (s @ t) bw bw2"
  by (auto simp add: wrote_def)

lemma wrote_Nil: "ready bw 0 \<Longrightarrow> wrote [] bw bw"
  by (simp add: wrote_def ready_def)

lemma file_Write_fits:
  assumes "length b \<le> capacity w"
  shows "file_Write f b w =
           ((length b, None), w\<lparr>files := (files w)(f \<mapsto> content w f @ b),
                                capacity := capacity w - length b\<rparr>)"
  using assms by (simp add: file_Write_def content_def Let_def min_def)

lemma bufio_Flush_fits:
  assumes "err b = None" and "length (buf b) \<le> capacity w" and "files w (wr b) \<noteq> None"
  shows "bufio_Flush b w =
           (b\<lparr>buf := []\<rparr>, if buf b = [] then w
                           else w\<lparr>files := (files w)(wr b \<mapsto> content w (wr b) @ buf b),
                                  capacity := capacity w - length (buf b)\<rparr>)"
  using assms by (simp add: bufio_Flush_def file_Write_fits)

lemma bufio_WriteByte_wrote:
  assumes "ready bw 1"
  shows "wrote [c] bw (bufio_WriteByte c bw)"
proof -
  obtain b w where bw: "bw = (b, w)" by (cases bw)
  from assms have e: "err b = None" and cap: "length (buf b) + 1 \<le> capacity w"
    and ex: "files w (wr b) \<noteq> None"
    by (simp_all add: ready_def bw)
  have fl: "bufio_Flush b w =
           (b\<lparr>buf := []\<rparr>, if buf b = [] then w
                           else w\<lparr>files := (files w)(wr b \<mapsto> content w (wr b) @ buf b),
                                  capacity := capacity w - length (buf b)\<rparr>)"
    using e cap ex by (intro bufio_Flush_fits) simp_all
  show ?thesis
  proof (cases "4096 \<le> length (buf b)")
    case True
    then have ne: "buf b \<noteq> []" by auto
    show ?thesis
      using True ne e cap ex
      by (simp add: bw bufio_WriteByte_def fl wrote_def content_def)
  next
    case False
    then show ?thesis
      using e cap ex by (simp add: bw bufio_WriteByte_def wrote_def)
  qed
qed

lemma bufio_WriteString_wrote:
  "ready bw (length s) \<Longrightarrow> wrote s bw (bufio_WriteString s bw)"
proof (induction s arbitrary: bw)
  case Nil
  then show ?case by (simp add: bufio_WriteString_def wrote_Nil)
next
  case (Cons c s)
  have e: "bufio_WriteString (c # s) bw = bufio_WriteString s (bufio_WriteByte c bw)"
    by (simp add: bufio_WriteString_def)
  from Cons.prems have r1: "ready bw 1" by (simp add: ready_def)
  have w1: "wrote [c] bw (bufio_WriteByte c bw)" by (rule bufio_WriteByte_wrote [OF r1])
  have "ready bw (length [c] + length s)" using Cons.prems by simp
  then have r2: "ready (bufio_WriteByte c bw) (length s)" using w1 by (rule ready_wrote)
  have "wrote ([c] @ s) bw (bufio_WriteString s (bufio_WriteByte c bw))"
    using w1 Cons.IH [OF r2] by (rule wrote_trans)
  then show ?case by (simp add: e)
qed

lemma csv_Write_wrote:
  assumes "ready bw (length (csv_line r))"
  shows "\<exists>bw'. csv_Write r bw = (None, bw') \<and> wrote (csv_line r) bw bw'"
proof -
  have w: "wrote (csv_line r) bw (bufio_WriteString (csv_line r) bw)"
    by (rule bufio_WriteString_wrote [OF assms])
  then have "err (fst (bufio_WriteString (csv_line r) bw)) = None" by (simp add: wrote_def)
  then have "csv_Write r bw = (None, bufio_WriteString (csv_line r) bw)"
    by (auto simp add: csv_Write_def split: prod.split)
  with w show ?thesis by blast
qed

lemma write_rows_wrote:
  "ready bw (length (rows_bytes vs)) \<Longrightarrow>
   \<exists>bw'. write_rows vs bw = (None, bw') \<and> wrote (rows_bytes vs) bw bw'"
proof (induction vs arbitrary: bw)
  case Nil
  then show ?case by (simp add: rows_bytes_def wrote_Nil)
next
  case (Cons v vs)
  have rb: "rows_bytes (v # vs) = csv_line (row v) @ rows_bytes vs"
    by (simp add: rows_bytes_def)
  from Cons.prems have r0: "ready bw (length (csv_line (row v)) + length (rows_bytes vs))"
    by (simp add: rb)
  then have "ready bw (length (csv_line (row v)))" by (simp add: ready_def)
  then obtain bw1 where c: "csv_Write (row v) bw = (None, bw1)"
    and w1: "wrote (csv_line (row v)) bw bw1"
    using csv_Write_wrote by blast
  have r1: "ready bw1 (length (rows_bytes vs))" using r0 w1 by (rule ready_wrote)
  then obtain bw2 where c2: "write_rows vs bw1 = (None, bw2)"
    and w2: "wrote (rows_bytes vs) bw1 bw2"
    using Cons.IH by blast
  have "wrote (rows_bytes (v # vs)) bw bw2" unfolding rb using w1 w2 by (rule wrote_trans)
  moreover have "write_rows (v # vs) bw = (None, bw2)" using c c2 by simp
  ultimately show ?case by blast
qed

lemma csv_line_nonempty: "csv_line r \<noteq> []"
  by (simp add: csv_line_def)

lemma writeToFileV0_ok:
  assumes nf: "no_faults w (dest_path dir s)"
    and cap: "length (batch_bytes w dir (s # rest)) \<le> capacity w"
  shows "fst (writeToFileV0 (s # rest) dir w) = None
       \<and> files (snd (writeToFileV0 (s # rest) dir w)) (dest_path dir s)
           = Some (content w (dest_path dir s) @ batch_bytes w dir (s # rest))
       \<and> capacity (snd (writeToFileV0 (s # rest) dir w))
           = capacity w - length (batch_bytes w dir (s # rest))"
proof -
  let ?p = "dest_path dir s"
  let ?H = "if content w ?p = [] then csv_line (header s) else []"
  let ?R = "rows_bytes (s # rest)"
  have bb: "batch_bytes w dir (s # rest) = ?H @ ?R" by (simp add: batch_bytes_def)
  obtain e1 w1 where m: "os_MkdirAll (filepath_Dir ?p) w = (e1, w1)"
    by (cases "os_MkdirAll (filepath_Dir ?p) w")
  have e1: "e1 = None"
    using mkdir_chain_ok [of "dir_chain (filepath_Dir ?p)" w] nf m
    by (simp add: no_faults_def os_MkdirAll_def)
  have w1: "files w1 = files w" "capacity w1 = capacity w" "same_env w w1"
    using mkdir_chain_files [of "dir_chain (filepath_Dir ?p)" w] m
    by (simp_all add: os_MkdirAll_def)
  have of1: "\<not> open_fault w1 ?p" and sf1: "\<not> stat_fault w1 ?p"
    using nf w1(3) by (simp_all add: no_faults_def same_env_def)
  define w2 where "w2 = (case files w1 ?p of None \<Rightarrow> w1\<lparr>files := (files w1)(?p \<mapsto> [])\<rparr> | Some c \<Rightarrow> w1)"
  have opn: "os_OpenFile ?p w1 = (Inr ?p, w2)"
    using of1 by (simp add: os_OpenFile_def w2_def)
  have w2: "files w2 ?p = Some (content w ?p)" "capacity w2 = capacity w" "\<not> stat_fault w2 ?p"
    using w1 sf1 by (simp_all add: w2_def content_def split: option.split)
  have c2: "content w2 ?p = content w ?p" using w2(1) by (simp add: content_def)
  have st: "file_Stat_Size ?p w2 = Inr (length (content w ?p))"
    using w2 by (simp add: file_Stat_Size_def)
  let ?bw0 = "(bufio_NewWriter ?p, w2)"
  have r0: "ready ?bw0 (length ?H + length ?R)"
    using cap w2 by (simp add: ready_def bufio_NewWriter_def bb)
  obtain e3 bw3 where h:
    "(if length (content w ?p) = 0 then csv_Write (header ((s # rest) ! 0)) ?bw0
      else (None, ?bw0)) = (e3, bw3)"
    by (metis prod.exhaust)
  have h3: "e3 = None \<and> wrote ?H ?bw0 bw3"
  proof (cases "content w ?p = []")
    case True
    have "ready ?bw0 (length (csv_line (header s)))" using r0 True by (simp add: ready_def)
    then obtain bw' where "csv_Write (header s) ?bw0 = (None, bw')"
      and "wrote (csv_line (header s)) ?bw0 bw'"
      using csv_Write_wrote by blast
    then show ?thesis using h True by simp
  next
    case False
    have "ready ?bw0 0" using r0 by (simp add: ready_def)
    then have "wrote [] ?bw0 ?bw0" by (rule wrote_Nil)
    then show ?thesis using h False by auto
  qed
  then have e3: "e3 = None" and wr3: "wrote ?H ?bw0 bw3" by simp_all
  have r3: "ready bw3 (length ?R)" using ready_wrote [OF r0 wr3] .
  obtain bw4 where wrr: "write_rows (s # rest) bw3 = (None, bw4)"
    and wr4: "wrote ?R bw3 bw4"
    using write_rows_wrote [OF r3] by blast
  have wr04: "wrote (?H @ ?R) ?bw0 bw4" using wr3 wr4 by (rule wrote_trans)
  obtain b4 w4 where bw4: "bw4 = (b4, w4)" by (cases bw4)
  from wr04 have f4: "err b4 = None" "wr b4 = ?p"
    "content w4 ?p @ buf b4 = content w ?p @ ?H @ ?R"
    "capacity w4 + length (?H @ ?R) = capacity w + length (buf b4)"
    "files w4 ?p \<noteq> None"
    by (simp_all add: wrote_def bw4 bufio_NewWriter_def c2 w2)
  have capf: "length (buf b4) \<le> capacity w4"
    using f4(4) cap by (simp add: bb)
  have fl: "bufio_Flush b4 w4 =
           (b4\<lparr>buf := []\<rparr>, if buf b4 = [] then w4
                           else w4\<lparr>files := (files w4)(wr b4 \<mapsto> content w4 (wr b4) @ buf b4),
                                  capacity := capacity w4 - length (buf b4)\<rparr>)"
    using f4 capf by (intro bufio_Flush_fits) simp_all
  have res: "writeToFileV0 (s # rest) dir w = (None, snd (bufio_Flush b4 w4))"
    using m e1 opn st h e3 wrr bw4 by (simp add: writeToFileV0_def Let_def)
  have fin: "files w4 ?p = Some (content w4 ?p)"
    using f4(5) by (auto simp add: content_def)
  have "files (snd (bufio_Flush b4 w4)) ?p = Some (content w ?p @ ?H @ ?R)"
    using f4 fin by (auto simp add: fl)
  moreover have "capacity (snd (bufio_Flush b4 w4)) = capacity w - length (?H @ ?R)"
    using f4(4) by (auto simp add: fl)
  ultimately show ?thesis by (simp add: res bb)
qed

subsection \<open>A batch that fits the buffer\<close>

text \<open>
  As long as the buffer of 4096 bytes does not fill up, nothing is written to the file
  before the final \<^verbatim>\<open>Flush\<close>, whose outcome the function does not inspect: the call
  reports success whatever the device accepted.
\<close>

lemma bufio_WriteByte_buffers:
  assumes "err b = None" and "length (buf b) < 4096"
  shows "bufio_WriteByte c (b, w) = (b\<lparr>buf := buf b @ [c]\<rparr>, w)"
  using assms by (simp add: bufio_WriteByte_def)

lemma bufio_WriteString_buffers:
  "err b = None \<Longrightarrow> length (buf b) + length s \<le> 4096 \<Longrightarrow>
   bufio_WriteString s (b, w) = (b\<lparr>buf := buf b @ s\<rparr>, w)"
proof (induction s arbitrary: b)
  case Nil
  then show ?case by (simp add: bufio_WriteString_def)
next
  case (Cons c s)
  have e: "bufio_WriteString (c # s) (b, w) = bufio_WriteString s (bufio_WriteByte c (b, w))"
    by (simp add: bufio_WriteString_def)
  have s1: "bufio_WriteByte c (b, w) = (b\<lparr>buf := buf b @ [c]\<rparr>, w)"
    using Cons.prems by (intro bufio_WriteByte_buffers) simp_all
  have "bufio_WriteString s (b\<lparr>buf := buf b @ [c]\<rparr>, w)
          = (b\<lparr>buf := buf b @ [c]\<rparr>\<lparr>buf := buf (b\<lparr>buf := buf b @ [c]\<rparr>) @ s\<rparr>, w)"
    using Cons.prems by (intro Cons.IH) simp_all
  then show ?case by (simp add: e s1)
qed

lemma csv_Write_buffers:
  "err b = None \<Longrightarrow> length (buf b) + length (csv_line r) \<le> 4096 \<Longrightarrow>
   csv_Write r (b, w) = (None, b\<lparr>buf := buf b @ csv_line r\<rparr>, w)"
  by (simp add: csv_Write_def bufio_WriteString_buffers)

lemma write_rows_buffers:
  "err b = None \<Longrightarrow> length (buf b) + length (rows_bytes vs) \<le> 4096 \<Longrightarrow>
   write_rows vs (b, w) = (None, b\<lparr>buf := buf b @ rows_bytes vs\<rparr>, w)"
proof (induction vs arbitrary: b)
  case Nil
  then show ?case by (simp add: rows_bytes_def)
next
  case (Cons v vs)
  have rb: "rows_bytes (v # vs) = csv_line (row v) @ rows_bytes vs"
    by (simp add: rows_bytes_def)
  have c: "csv_Write (row v) (b, w) = (None, b\<lparr>buf := buf b @ csv_line (row v)\<rparr>, w)"
    using Cons.prems by (intro csv_Write_buffers) (simp_all add: rb)
  have "write_rows vs (b\<lparr>buf := buf b @ csv_line (row v)\<rparr>, w)
      = (None, b\<lparr>buf := buf b @ csv_line (row v)\<rparr>
                 \<lparr>buf := buf (b\<lparr>buf := buf b @ csv_line (row v)\<rparr>) @ rows_bytes vs\<rparr>, w)"
    using Cons.prems by (intro Cons.IH) (simp_all add: rb)
  then show ?case by (simp add: c rb)
qed

lemma writeToFileV0_buffered:
  assumes nf: "no_faults w (dest_path dir s)"
    and small: "length (batch_bytes w dir (s # rest)) \<le> 4096"
  shows "fst (writeToFileV0 (s # rest) dir w) = None
       \<and> files (snd (writeToFileV0 (s # rest) dir w)) (dest_path dir s)
           = Some (content w (dest_path dir s) @ take (capacity w) (batch_bytes w dir (s # rest)))"
proof -
  let ?p = "dest_path dir s"
  let ?H = "if content w ?p = [] then csv_line (header s) else []"
  let ?R = "rows_bytes (s # rest)"
  have bb: "batch_bytes w dir (s # rest) = ?H @ ?R" by (simp add: batch_bytes_def)
  obtain e1 w1 where m: "os_MkdirAll (filepath_Dir ?p) w = (e1, w1)"
    by (cases "os_MkdirAll (filepath_Dir ?p) w")
  have e1: "e1 = None"
    using mkdir_chain_ok [of "dir_chain (filepath_Dir ?p)" w] nf m
    by (simp add: no_faults_def os_MkdirAll_def)
  have w1: "files w1 = files w" "capacity w1 = capacity w" "same_env w w1"
    using mkdir_chain_files [of "dir_chain (filepath_Dir ?p)" w] m
    by (simp_all add: os_MkdirAll_def)
  have of1: "\<not> open_fault w1 ?p" and sf1: "\<not> stat_fault w1 ?p"
    using nf w1(3) by (simp_all add: no_faults_def same_env_def)
  define w2 where "w2 = (case files w1 ?p of None \<Rightarrow> w1\<lparr>files := (files w1)(?p \<mapsto> [])\<rparr> | Some c \<Rightarrow> w1)"
  have opn: "os_OpenFile ?p w1 = (Inr ?p, w2)"
    using of1 by (simp add: os_OpenFile_def w2_def)
  have w2: "files w2 ?p = Some (content w ?p)" "capacity w2 = capacity w" "\<not> stat_fault w2 ?p"
    using w1 sf1 by (simp_all add: w2_def content_def split: option.split)
  have st: "file_Stat_Size ?p w2 = Inr (length (content w ?p))"
    using w2 by (simp add: file_Stat_Size_def)
  let ?b0 = "bufio_NewWriter ?p"
  have h: "(if length (content w ?p) = 0 then csv_Write (header ((s # rest) ! 0)) (?b0, w2)
            else (None, ?b0, w2)) = (None, ?b0\<lparr>buf := ?H\<rparr>, w2)"
  proof (cases "content w ?p = []")
    case True
    have "csv_Write (header s) (?b0, w2) = (None, ?b0\<lparr>buf := buf ?b0 @ csv_line (header s)\<rparr>, w2)"
      using small True by (intro csv_Write_buffers) (simp_all add: bb bufio_NewWriter_def)
    then show ?thesis using True by (simp add: bufio_NewWriter_def)
  next
    case False
    then show ?thesis by (simp add: bufio_NewWriter_def)
  qed
  have wrr: "write_rows (s # rest) (?b0\<lparr>buf := ?H\<rparr>, w2)
      = (None, ?b0\<lparr>buf := ?H\<rparr>\<lparr>buf := buf (?b0\<lparr>buf := ?H\<rparr>) @ ?R\<rparr>, w2)"
    using small by (intro write_rows_buffers) (simp_all add: bb bufio_NewWriter_def)
  let ?b4 = "\<lparr>wr = ?p, buf = ?H @ ?R, err = None\<rparr>"
  have wrr': "write_rows (s # rest) (?b0\<lparr>buf := ?H\<rparr>, w2) = (None, ?b4, w2)"
    using wrr by (simp add: bufio_NewWriter_def)
  have res: "writeToFileV0 (s # rest) dir w = (None, snd (bufio_Flush ?b4 w2))"
    using m e1 opn st h wrr' by (simp add: writeToFileV0_def Let_def)
  have ne: "?H @ ?R \<noteq> []"
    by (simp add: rows_bytes_def csv_line_nonempty)
  have "files (snd (bufio_Flush ?b4 w2)) ?p = Some (content w ?p @ take (capacity w) (?H @ ?R))"
    using ne w2 by (simp add: bufio_Flush_def file_Write_def Let_def min_def split: prod.split)
  then show ?thesis by (simp add: res bb)
qed

subsection \<open>The header line and the destination path\<close>

lemma decimal_nonempty: "decimal n \<noteq> []"
  by (subst decimal.simps) simp

lemma decimal_digits: "0 \<le> n \<Longrightarrow> set (decimal n) \<subseteq> set ''0123456789''"
proof (induction n rule: decimal.induct)
  case (1 n)
  have d: "digit k \<in> set ''0123456789''" if "0 \<le> k" "k < 10" for k
  proof -
    have "nat k < length ''0123456789''" using that by simp
    then show ?thesis unfolding digit_def by (rule nth_mem)
  qed
  show ?case
  proof (cases "n < 10")
    case True
    then show ?thesis using d [of n] "1.prems" by (subst decimal.simps) simp
  next
    case False
    then have "set (decimal (n div 10)) \<subseteq> set ''0123456789''"
      using "1.IH" "1.prems" by simp
    moreover have "digit (n mod 10) \<in> set ''0123456789''" by (rule d) simp_all
    ultimately show ?thesis using False by (subst decimal.simps) simp
  qed
qed

lemma csv_field_channel: "csv_field (CHR ''A'' # Itoa (int k)) = CHR ''A'' # Itoa (int k)"
proof -
  have i: "Itoa (int k) = decimal (int k)" by (simp add: Itoa_def)
  have s: "set (decimal (int k)) \<subseteq> set ''0123456789''" by (rule decimal_digits) simp
  have ne: "decimal (int k) \<noteq> []" by (rule decimal_nonempty)
  have "\<not> fieldNeedsQuotes (CHR ''A'' # decimal (int k))"
    using s by (auto simp add: fieldNeedsQuotes_def first_rune_IsSpace_def take_Cons' )
  then show ?thesis by (simp add: csv_field_def i)
qed

lemma strings_Join_Cons:
  "strings_Join (a # xs) sep = a @ concat (map (\<lambda>x. sep @ x) xs)"
  by (induction xs arbitrary: a) simp_all

lemma header_line:
  "csv_line (header s) =
     ''account,device,time,period''
     @ concat (map (\<lambda>k. '',A'' @ Itoa (int k)) [0..<length (values' s)]) @ ''\<newline>''"
proof -
  have f: "csv_field ''account'' = ''account''" "csv_field ''device'' = ''device''"
    "csv_field ''time'' = ''time''" "csv_field ''period'' = ''period''"
    by (simp_all add: csv_field_def fieldNeedsQuotes_def first_rune_IsSpace_def)
  show ?thesis
    by (simp add: csv_line_def header_def strings_Join_Cons f csv_field_channel comp_def)
qed

lemma appendInt_nonempty: "appendInt x n \<noteq> []"
  by (simp add: appendInt_def zero_pad_def decimal_nonempty)

lemma dest_path_components:
  "dest_path dir s =
     filepath_Join [dir, string_of_bytes (id' s),
                    appendInt (Year (UTC (time s))) 4, appendInt (Month (UTC (time s))) 2,
                    appendInt (Day (UTC (time s))) 2,
                    Sprintf_02d (Hour (UTC (time s))) @ ''-'' @ string_of_bytes (device s) @ ''.dat'']"
  using appendInt_nonempty [of "Year (UTC (time s))" 4]
  by (simp add: dest_path_def Let_def Format_2006_01_02_def)

subsection \<open>The example, evaluated\<close>

lemma example_dest:
  "dest_path ''data'' example_record0 = example_path"
  "dest_path ''data'' example_record1 = example_path"
  by code_simp+

lemma late_dest: "dest_path ''data'' late_record = late_path"
  by code_simp

lemma example_header:
  "csv_line (header example_record0) = ''account,device,time,period,A0,A1\<newline>''"
  by code_simp

lemma example_rows:
  "csv_line (row example_record0) = ''ABCDEFGHIJ,aBK23o#OP@,2014-03-10T00:57:40Z,1000,10,20\<newline>''"
  "csv_line (row example_record1) = ''ABCDEFGHIJ,aBK23o#OP@,2014-03-10T00:57:41Z,1000,30,40\<newline>''"
  by code_simp+

lemma late_row:
  "csv_line (row late_record) = ''ABCDEFGHIJ,aBK23o#OP@,2014-03-10T01:57:40Z,1000,50,60\<newline>''"
  by code_simp

lemma example_rows_bytes:
  "rows_bytes [example_record0, example_record1] =
     ''ABCDEFGHIJ,aBK23o#OP@,2014-03-10T00:57:40Z,1000,10,20\<newline>ABCDEFGHIJ,aBK23o#OP@,2014-03-10T00:57:41Z,1000,30,40\<newline>''"
  "rows_bytes [example_record0] = ''ABCDEFGHIJ,aBK23o#OP@,2014-03-10T00:57:40Z,1000,10,20\<newline>''"
  "rows_bytes [example_record1] = ''ABCDEFGHIJ,aBK23o#OP@,2014-03-10T00:57:41Z,1000,30,40\<newline>''"
  by (simp_all add: rows_bytes_def example_rows)

lemma example_same_hour:
  "id' example_record1 = id' example_record0 \<and> device example_record1 = device example_record0
   \<and> Year (UTC (time example_record1)) = Year (UTC (time example_record0))
   \<and> Month (UTC (time example_record1)) = Month (UTC (time example_record0))
   \<and> Day (UTC (time example_record1)) = Day (UTC (time example_record0))
   \<and> Hour (UTC (time example_record1)) = Hour (UTC (time example_record0))"
  by code_simp

lemma fresh_world_simps:
  "content (fresh_world c) p = []" "files (fresh_world c) p = None"
  "capacity (fresh_world c) = c" "no_faults (fresh_world c) p"
  by (simp_all add: content_def fresh_world_def no_faults_def)

lemma existing_world_simps:
  "files existing_world example_path = Some ''account,device,time,period,A0,A1\<newline>''"
  "content existing_world example_path = ''account,device,time,period,A0,A1\<newline>''"
  "capacity existing_world = 4096" "no_faults existing_world p"
  by (simp_all add: existing_world_def content_def fresh_world_def no_faults_def)

lemma example_batch:
  "batch_bytes (fresh_world c) ''data'' [example_record0, example_record1] =
     ''account,device,time,period,A0,A1\<newline>ABCDEFGHIJ,aBK23o#OP@,2014-03-10T00:57:40Z,1000,10,20\<newline>ABCDEFGHIJ,aBK23o#OP@,2014-03-10T00:57:41Z,1000,30,40\<newline>''"
  by (simp add: batch_bytes_def rows_bytes_def fresh_world_simps example_header example_rows)

section \<open>The claims\<close>

text \<open>
  Claim C1, as stated, fails on the hour: the example payload decodes to two records
  whose timestamps print as \<^verbatim>\<open>2014-03-10T00:57:40Z\<close> and \<^verbatim>\<open>2014-03-10T00:57:41Z\<close>; the
  UTC hour of both is 0, not 1 (1394413060 seconds after the epoch is 00:57:40 UTC on
  10 March 2014).
\<close>

theorem example_hour_counterexample:
  "(case decodeV0 example_payload of
      Inl e \<Rightarrow> False
    | Inr recs \<Rightarrow>
        Format_RFC3339Nano (UTC (time (recs ! 0))) = ''2014-03-10T00:57:40Z''
        \<and> Hour (UTC (time (recs ! 0))) \<noteq> 1
        \<and> Format_RFC3339Nano (UTC (time (recs ! 1))) = ''2014-03-10T00:57:41Z''
        \<and> Hour (UTC (time (recs ! 1))) \<noteq> 1)"
  by code_simp

text \<open>
  Claim C1, amended: decoding the example payload yields record 0 with timestamp
  \<^verbatim>\<open>2014-03-10T00:57:40Z\<close> and values \<open>[10, 20]\<close> and record 1 with timestamp
  \<^verbatim>\<open>2014-03-10T00:57:41Z\<close> and values \<open>[30, 40]\<close>; appending that batch to a fresh data
  directory succeeds and leaves exactly one file, \<^verbatim>\<open>data/ABCDEFGHIJ/2014/03/10/00-aBK23o#OP@.dat\<close>,
  whose first line is \<^verbatim>\<open>account,device,time,period,A0,A1\<close>, followed by the two rows.
\<close>

theorem example_batch_decoded_and_stored:
  "decodeV0 example_payload = Inr [example_record0, example_record1]
   \<and> map (\<lambda>r. Format_RFC3339Nano (UTC (time r))) [example_record0, example_record1]
       = [''2014-03-10T00:57:40Z'', ''2014-03-10T00:57:41Z'']
   \<and> map (\<lambda>r. map sint (values' r)) [example_record0, example_record1] = [[10, 20], [30, 40]]
   \<and> fst (writeToFileV0 [example_record0, example_record1] ''data'' (fresh_world 4096)) = None
   \<and> dom (files (snd (writeToFileV0 [example_record0, example_record1] ''data'' (fresh_world 4096))))
       = {''data/ABCDEFGHIJ/2014/03/10/00-aBK23o#OP@.dat''}
   \<and> files (snd (writeToFileV0 [example_record0, example_record1] ''data'' (fresh_world 4096)))
        ''data/ABCDEFGHIJ/2014/03/10/00-aBK23o#OP@.dat''
       = Some (''account,device,time,period,A0,A1\<newline>''
               @ ''ABCDEFGHIJ,aBK23o#OP@,2014-03-10T00:57:40Z,1000,10,20\<newline>''
               @ ''ABCDEFGHIJ,aBK23o#OP@,2014-03-10T00:57:41Z,1000,30,40\<newline>'')"
proof -
  let ?w' = "snd (writeToFileV0 [example_record0, example_record1] ''data'' (fresh_world 4096))"
  have d: "decodeV0 example_payload = Inr [example_record0, example_record1]"
    by code_simp
  have t: "map (\<lambda>r. Format_RFC3339Nano (UTC (time r))) [example_record0, example_record1]
       = [''2014-03-10T00:57:40Z'', ''2014-03-10T00:57:41Z'']"
    by code_simp
  have v: "map (\<lambda>r. map sint (values' r)) [example_record0, example_record1] = [[10, 20], [30, 40]]"
    by (simp add: example_record0_def example_record1_def)
  have cap: "length (batch_bytes (fresh_world 4096) ''data'' [example_record0, example_record1])
      \<le> capacity (fresh_world 4096)"
    by (simp add: example_batch fresh_world_simps)
  have ok: "fst (writeToFileV0 [example_record0, example_record1] ''data'' (fresh_world 4096)) = None"
    "files ?w' example_path
       = Some ''account,device,time,period,A0,A1\<newline>ABCDEFGHIJ,aBK23o#OP@,2014-03-10T00:57:40Z,1000,10,20\<newline>ABCDEFGHIJ,aBK23o#OP@,2014-03-10T00:57:41Z,1000,30,40\<newline>''"
    using writeToFileV0_ok [OF fresh_world_simps(4) cap]
    by (simp_all add: example_dest example_batch fresh_world_simps)
  have other: "files ?w' q = None" if "q \<noteq> example_path" for q
    using writeToFileV0_appended [of "''data''" example_record0 "fresh_world 4096" "[example_record1]"] that
    by (simp add: appended_def example_dest fresh_world_simps)
  have "dom (files ?w') = {example_path}"
  proof
    show "dom (files ?w') \<subseteq> {example_path}"
    proof
      fix q assume "q \<in> dom (files ?w')"
      then have "files ?w' q \<noteq> None" by auto
      then have "q = example_path" using other [of q] by (cases "q = example_path") simp_all
      then show "q \<in> {example_path}" by simp
    qed
    show "{example_path} \<subseteq> dom (files ?w')" using ok(2) by auto
  qed
  then show ?thesis using d t v ok by (simp add: example_path_def)
qed

text \<open>
  Claim C2 (timestamp of record \<open>i\<close> is \<open>t1 * 1000 + t2 + i * period\<close> milliseconds,
  consecutive records differ by the period) does not hold of the code: the product
  \<^verbatim>\<open>per*i\<close> is computed in 16 bits. For the header with period 1000 and 34 samples,
  record 32 is at \<open>t1 * 1000 + 32000\<close> ms, but \<open>1000 * 33\<close> wraps to \<open>-32536\<close>: record
  33 is at \<open>t1 * 1000 - 32536\<close> ms, 64536 ms before record 32.
\<close>

theorem timestamp_wraps_at_sample_33:
  "(case decodeV0 overflow_payload of
      Inl e \<Rightarrow> False
    | Inr recs \<Rightarrow>
        length recs = 34
        \<and> time (recs ! 32) = (1394413060 * 1000 + 0 + 32 * 1000) * 1000000
        \<and> time (recs ! 33) = (1394413060 * 1000 + 0 - 32536) * 1000000
        \<and> time (recs ! 33) \<noteq> (1394413060 * 1000 + 0 + 33 * 1000) * 1000000
        \<and> time (recs ! 33) - time (recs ! 32) \<noteq> 1000 * 1000000)"
  by code_simp

text \<open>
  Claim C3, as stated, fails: the fixed header is 33 bytes long (10 + 10 + 4 + 4 + 2 +
  2 + 1), not 23. A payload whose header declares \<open>N = 5\<close> and \<open>C = 1\<close> and that has
  exactly \<open>23 + N * C * 2 = 33\<close> bytes consists of the header alone, and decoding it fails
  at the first sample value.
\<close>

theorem decode_counts_counterexample:
  "sint (sample_count header_only_payload) = 5
   \<and> unat (channel_count header_only_payload) = 1
   \<and> length header_only_payload = 23 + 5 * 1 * 2
   \<and> decodeV0 header_only_payload = Inl EOF"
  by code_simp

text \<open>
  Claim C3, amended: for every payload whose header declares a sample count \<open>N \<ge> 0\<close>
  and a channel count \<open>C\<close> and that has exactly \<open>33 + N * C * 2\<close> bytes, decoding succeeds
  and returns exactly \<open>N\<close> records, each with exactly \<open>C\<close> values, value \<open>j\<close> of record
  \<open>i\<close> being the little-endian 16-bit value at byte \<open>33 + 2 * (i * C + j)\<close> (row-major
  order). In particular \<open>N = 0\<close> gives no records and \<open>C = 0\<close> gives records without
  values.
\<close>

theorem decode_counts:
  assumes nonneg: "0 \<le> sint (sample_count body)"
    and len: "int (length body) = 33 + sint (sample_count body) * int (unat (channel_count body)) * 2"
  shows "\<exists>recs. decodeV0 body = Inr recs
           \<and> int (length recs) = sint (sample_count body)
           \<and> (\<forall>i < length recs.
                 length (values' (recs ! i)) = unat (channel_count body)
                 \<and> (\<forall>j < unat (channel_count body).
                       values' (recs ! i) ! j =
                         Uint16 [body ! (33 + 2 * (i * unat (channel_count body) + j)),
                                 body ! (33 + 2 * (i * unat (channel_count body) + j) + 1)]))"
proof -
  let ?n = "nat (sint (sample_count body))"
  let ?c = "unat (channel_count body)"
  have n: "int ?n = sint (sample_count body)" using nonneg by simp
  have "int (length body) = 33 + int (2 * ?c * ?n)"
    using len n by (simp add: algebra_simps)
  then have l: "length body = 33 + 2 * ?c * ?n" by linarith
  have h: "33 \<le> length body" using l by simp
  have notneg: "\<not> sample_count body <s 0" using nonneg by (simp add: word_sless_alt)
  have "\<exists>recs. read_samples 0 (sample_count body) (take 10 body) (take 10 (drop 10 body))
          (Uint32 (take 4 (drop 20 body))) (Uint32 (take 4 (drop 24 body)))
          (Uint16 (take 2 (drop 28 body))) (channel_count body) (drop 33 body) [] = Inr ([] @ recs)
        \<and> map values' recs = sample_rows ?n ?c (drop 33 body)"
    by (rule read_samples_ok) (use nonneg l in simp_all)
  then obtain recs where
    r: "read_samples 0 (sample_count body) (take 10 body) (take 10 (drop 10 body))
          (Uint32 (take 4 (drop 20 body))) (Uint32 (take 4 (drop 24 body)))
          (Uint16 (take 2 (drop 28 body))) (channel_count body) (drop 33 body) [] = Inr recs"
    and v: "map values' recs = sample_rows ?n ?c (drop 33 body)"
    by auto
  have d: "decodeV0 body = Inr recs"
    using decodeV0_header [OF h] notneg r by simp
  have lr: "length recs = ?n"
    using arg_cong [OF v, of length] by (simp add: sample_rows_def)
  have vals: "values' (recs ! i) ! j = Uint16 [body ! (33 + 2 * (i * ?c + j)), body ! (33 + 2 * (i * ?c + j) + 1)]"
    if i: "i < length recs" and j: "j < ?c" for i j
  proof -
    have "values' (recs ! i) = map values' recs ! i" using i by simp
    also have "\<dots> = channel_values ?c (drop (2 * ?c * i) (drop 33 body))"
      using i lr by (simp add: v sample_rows_nth)
    finally have e: "values' (recs ! i) = channel_values ?c (drop (2 * ?c * i) (drop 33 body))" .
    have "Suc i \<le> ?n" using i lr by simp
    then have "?c * Suc i \<le> ?c * ?n" by (rule mult_le_mono2)
    then have b: "Suc (33 + 2 * (i * ?c + j)) < length body"
      using j l by (simp add: algebra_simps)
    have "values' (recs ! i) ! j = Uint16 (take 2 (drop (33 + 2 * (i * ?c + j)) body))"
      using j by (simp add: e channel_values_nth algebra_simps)
    also have "\<dots> = Uint16 [body ! (33 + 2 * (i * ?c + j)), body ! Suc (33 + 2 * (i * ?c + j))]"
      by (rule Uint16_at [OF b])
    finally show ?thesis by simp
  qed
  have lens: "length (values' (recs ! i)) = ?c" if i: "i < length recs" for i
  proof -
    have "values' (recs ! i) = map values' recs ! i" using i by simp
    also have "\<dots> = channel_values ?c (drop (2 * ?c * i) (drop 33 body))"
      using i lr by (simp add: v sample_rows_nth)
    finally show ?thesis by (simp add: channel_values_def)
  qed
  show ?thesis
    using d lr n vals lens by auto
qed

text \<open>
  Claim C3, amended, at the example payload (\<open>N = 2\<close>, \<open>C = 2\<close>, 41 bytes).
\<close>

theorem decode_counts_witness:
  "0 \<le> sint (sample_count example_payload)
   \<and> int (length example_payload)
       = 33 + sint (sample_count example_payload) * int (unat (channel_count example_payload)) * 2
   \<and> (\<exists>recs. decodeV0 example_payload = Inr recs
           \<and> int (length recs) = sint (sample_count example_payload)
           \<and> (\<forall>i < length recs.
                 length (values' (recs ! i)) = unat (channel_count example_payload)
                 \<and> (\<forall>j < unat (channel_count example_payload).
                       values' (recs ! i) ! j =
                         Uint16 [example_payload ! (33 + 2 * (i * unat (channel_count example_payload) + j)),
                                 example_payload ! (33 + 2 * (i * unat (channel_count example_payload) + j) + 1)])))"
proof -
  have a: "0 \<le> sint (sample_count example_payload)"
    by (simp add: example_payload_fields)
  have b: "int (length example_payload)
       = 33 + sint (sample_count example_payload) * int (unat (channel_count example_payload)) * 2"
    by (simp add: example_payload_fields)
  show ?thesis using a b decode_counts [OF a b] by blast
qed

text \<open>
  Claim C4: every payload that ends inside the header (fewer than 33 bytes, the empty
  payload included) or is shorter than \<open>23 + N * C * 2\<close> bytes, \<open>N\<close> and \<open>C\<close> being the
  counts its header declares, makes the decoder fail with one of the two read errors,
  which is \<^verbatim>\<open>MalformedPayload\<close>; no record sequence is returned.
\<close>

theorem decode_truncated_fails:
  assumes "length body < 33
           \<or> int (length body) < 23 + sint (sample_count body) * int (unat (channel_count body)) * 2"
  shows "\<exists>e. decodeV0 body = Inl e \<and> MalformedPayload e"
proof -
  from assms have "length body < 33
      \<or> int (length body) < 33 + sint (sample_count body) * int (unat (channel_count body)) * 2"
    by linarith
  then have "decodeV0 body = Inl EOF \<or> decodeV0 body = Inl ErrUnexpectedEOF"
    by (rule decodeV0_short)
  then show ?thesis by (auto simp add: MalformedPayload_def)
qed

text \<open>
  Claim C4 at a payload that ends inside its first sample (34 bytes, \<open>N = 3\<close>,
  \<open>C = 2\<close>) and at the empty payload.
\<close>

theorem decode_truncated_fails_witness:
  "(length truncated_payload < 33
     \<or> int (length truncated_payload)
         < 23 + sint (sample_count truncated_payload) * int (unat (channel_count truncated_payload)) * 2)
   \<and> (\<exists>e. decodeV0 truncated_payload = Inl e \<and> MalformedPayload e)
   \<and> (length ([] :: byte list) < 33
     \<or> int (length ([] :: byte list))
         < 23 + sint (sample_count []) * int (unat (channel_count [])) * 2)
   \<and> (\<exists>e. decodeV0 [] = Inl e \<and> MalformedPayload e)"
proof -
  have a: "length truncated_payload < 33
     \<or> int (length truncated_payload)
         < 23 + sint (sample_count truncated_payload) * int (unat (channel_count truncated_payload)) * 2"
    by (simp add: sample_count_def channel_count_def truncated_payload_def Uint16_def)
  have b: "length ([] :: byte list) < 33
     \<or> int (length ([] :: byte list))
         < 23 + sint (sample_count []) * int (unat (channel_count [])) * 2"
    by simp
  show ?thesis
    using a b decode_truncated_fails [OF a] decode_truncated_fails [OF b] by blast
qed

text \<open>
  Claim C5: when nothing fails, the header line is written exactly when the destination
  file was empty before the call (last conjunct, for any world \<open>w0\<close>); hence two batches
  with the same destination, appended one after the other to a path that did not exist,
  leave a file that holds one header line followed by the rows of the first and then of
  the second batch. The header line is \<^verbatim>\<open>account,device,time,period\<close> followed by
  \<^verbatim>\<open>,A0\<close> ... \<^verbatim>\<open>,A(C-1)\<close> for the \<open>C\<close> values of the first record.
\<close>

theorem header_written_once:
  assumes nf: "no_faults w p" and p1: "dest_path dir s1 = p" and p2: "dest_path dir s2 = p"
    and new: "files w p = None"
    and cap: "length (csv_line (header s1) @ rows_bytes (s1 # rest1) @ rows_bytes (s2 # rest2))
                \<le> capacity w"
  shows "fst (writeToFileV0 (s1 # rest1) dir w) = None
       \<and> fst (writeToFileV0 (s2 # rest2) dir (snd (writeToFileV0 (s1 # rest1) dir w))) = None
       \<and> files (snd (writeToFileV0 (s2 # rest2) dir (snd (writeToFileV0 (s1 # rest1) dir w)))) p
           = Some (csv_line (header s1) @ rows_bytes (s1 # rest1) @ rows_bytes (s2 # rest2))
       \<and> csv_line (header s1)
           = ''account,device,time,period''
             @ concat (map (\<lambda>k. '',A'' @ Itoa (int k)) [0..<length (values' s1)]) @ ''\<newline>''
       \<and> (no_faults w0 (dest_path dir s1) \<and> length (batch_bytes w0 dir (s1 # rest1)) \<le> capacity w0 \<longrightarrow>
            files (snd (writeToFileV0 (s1 # rest1) dir w0)) (dest_path dir s1)
              = Some (content w0 (dest_path dir s1)
                      @ (if length (content w0 (dest_path dir s1)) = 0 then csv_line (header s1) else [])
                      @ rows_bytes (s1 # rest1)))"
proof -
  let ?w1 = "snd (writeToFileV0 (s1 # rest1) dir w)"
  let ?H = "csv_line (header s1)"
  have c: "content w p = []" using new by (simp add: content_def)
  have bb1: "batch_bytes w dir (s1 # rest1) = ?H @ rows_bytes (s1 # rest1)"
    using c p1 by (simp add: batch_bytes_def)
  have ok1: "fst (writeToFileV0 (s1 # rest1) dir w) = None
       \<and> files ?w1 p = Some (?H @ rows_bytes (s1 # rest1))
       \<and> capacity ?w1 = capacity w - length (?H @ rows_bytes (s1 # rest1))"
    using writeToFileV0_ok [of w dir s1 rest1] nf cap by (simp add: p1 bb1 c)
  have "appended p w ?w1" using writeToFileV0_appended [of dir s1 w rest1] by (simp add: p1)
  then have "same_env w ?w1" by (simp add: appended_def)
  then have nf1: "no_faults ?w1 p" using nf by (simp add: no_faults_same_env)
  have c1: "content ?w1 p = ?H @ rows_bytes (s1 # rest1)" using ok1 by (simp add: content_def)
  have "?H \<noteq> []" by (rule csv_line_nonempty)
  then have bb2: "batch_bytes ?w1 dir (s2 # rest2) = rows_bytes (s2 # rest2)"
    using c1 p2 by (simp add: batch_bytes_def)
  have cap1: "length (rows_bytes (s2 # rest2)) \<le> capacity ?w1"
    using ok1 cap by simp
  have ok2: "fst (writeToFileV0 (s2 # rest2) dir ?w1) = None
       \<and> files (snd (writeToFileV0 (s2 # rest2) dir ?w1)) p
           = Some (?H @ rows_bytes (s1 # rest1) @ rows_bytes (s2 # rest2))"
    using writeToFileV0_ok [of ?w1 dir s2 rest2] nf1 cap1 by (simp add: p2 bb2 c1)
  have single: "files (snd (writeToFileV0 (s1 # rest1) dir w0)) (dest_path dir s1)
              = Some (content w0 (dest_path dir s1)
                      @ (if length (content w0 (dest_path dir s1)) = 0 then csv_line (header s1) else [])
                      @ rows_bytes (s1 # rest1))"
    if "no_faults w0 (dest_path dir s1)" and "length (batch_bytes w0 dir (s1 # rest1)) \<le> capacity w0"
    using writeToFileV0_ok [of w0 dir s1 rest1] that by (simp add: batch_bytes_def)
  show ?thesis using ok1 ok2 header_line [of s1] single by blast
qed

text \<open>
  Claim C5 at the two example records, written as two batches of one record into
  a fresh data directory, and at a file that already holds a header line.
\<close>

theorem header_written_once_witness:
  "no_faults (fresh_world 4096) example_path
   \<and> dest_path ''data'' example_record0 = example_path
   \<and> dest_path ''data'' example_record1 = example_path
   \<and> files (fresh_world 4096) example_path = None
   \<and> length (csv_line (header example_record0) @ rows_bytes [example_record0]
              @ rows_bytes [example_record1]) \<le> capacity (fresh_world 4096)
   \<and> no_faults existing_world (dest_path ''data'' example_record0)
   \<and> length (batch_bytes existing_world ''data'' [example_record0]) \<le> capacity existing_world
   \<and> fst (writeToFileV0 [example_record0] ''data'' (fresh_world 4096)) = None
   \<and> fst (writeToFileV0 [example_record1] ''data''
             (snd (writeToFileV0 [example_record0] ''data'' (fresh_world 4096)))) = None
   \<and> files (snd (writeToFileV0 [example_record1] ''data''
                   (snd (writeToFileV0 [example_record0] ''data'' (fresh_world 4096)))))
        example_path
       = Some ''account,device,time,period,A0,A1\<newline>ABCDEFGHIJ,aBK23o#OP@,2014-03-10T00:57:40Z,1000,10,20\<newline>ABCDEFGHIJ,aBK23o#OP@,2014-03-10T00:57:41Z,1000,30,40\<newline>''
   \<and> files (snd (writeToFileV0 [example_record0] ''data'' existing_world))
        (dest_path ''data'' example_record0)
       = Some ''account,device,time,period,A0,A1\<newline>ABCDEFGHIJ,aBK23o#OP@,2014-03-10T00:57:40Z,1000,10,20\<newline>''"
proof -
  have nf: "no_faults (fresh_world 4096) example_path" by (rule fresh_world_simps)
  have new: "files (fresh_world 4096) example_path = None" by (rule fresh_world_simps)
  have cap: "length (csv_line (header example_record0) @ rows_bytes [example_record0]
              @ rows_bytes [example_record1]) \<le> capacity (fresh_world 4096)"
    by (simp add: example_header example_rows_bytes fresh_world_simps)
  have nf0: "no_faults existing_world (dest_path ''data'' example_record0)"
    by (rule existing_world_simps)
  have bb: "batch_bytes existing_world ''data'' [example_record0] = rows_bytes [example_record0]"
    by (simp add: batch_bytes_def example_dest existing_world_simps)
  have cap0: "length (batch_bytes existing_world ''data'' [example_record0]) \<le> capacity existing_world"
    by (simp add: bb example_rows_bytes existing_world_simps)
  show ?thesis
    using nf new cap nf0 cap0
      header_written_once [OF nf example_dest(1) example_dest(2) new cap,
        where ?w0.0 = existing_world]
    by (simp add: example_dest example_header example_rows_bytes existing_world_simps)
qed

text \<open>
  Claim C6: the destination is the join of the root directory, the account identifier,
  the UTC year (four digits), month and day (two digits each) and the file name made of
  the two-digit UTC hour, the device identifier and \<^verbatim>\<open>.dat\<close>, all taken from the first
  record. Two first records that agree on account, device and UTC year, month, day and
  hour have the same destination. Whatever the other records of the batch are, no file
  but the destination of the first record changes, and when nothing fails that file
  ends with the rows of the whole batch.
\<close>

theorem destination_from_first_record:
  "dest_path dir s =
     filepath_Join [dir, string_of_bytes (id' s),
                    appendInt (Year (UTC (time s))) 4, appendInt (Month (UTC (time s))) 2,
                    appendInt (Day (UTC (time s))) 2,
                    Sprintf_02d (Hour (UTC (time s))) @ ''-'' @ string_of_bytes (device s) @ ''.dat'']
   \<and> (id' s' = id' s \<and> device s' = device s
        \<and> Year (UTC (time s')) = Year (UTC (time s)) \<and> Month (UTC (time s')) = Month (UTC (time s))
        \<and> Day (UTC (time s')) = Day (UTC (time s)) \<and> Hour (UTC (time s')) = Hour (UTC (time s))
       \<longrightarrow> dest_path dir s' = dest_path dir s)
   \<and> (q \<noteq> dest_path dir s \<longrightarrow> files (snd (writeToFileV0 (s # rest) dir w)) q = files w q)
   \<and> (no_faults w (dest_path dir s) \<and> length (batch_bytes w dir (s # rest)) \<le> capacity w \<longrightarrow>
        (\<exists>before. files (snd (writeToFileV0 (s # rest) dir w)) (dest_path dir s)
                    = Some (before @ rows_bytes (s # rest))))"
proof -
  have a: "dest_path dir s' = dest_path dir s"
    if "id' s' = id' s \<and> device s' = device s
        \<and> Year (UTC (time s')) = Year (UTC (time s)) \<and> Month (UTC (time s')) = Month (UTC (time s))
        \<and> Day (UTC (time s')) = Day (UTC (time s)) \<and> Hour (UTC (time s')) = Hour (UTC (time s))"
    using that by (simp add: dest_path_components)
  have b: "files (snd (writeToFileV0 (s # rest) dir w)) q = files w q" if "q \<noteq> dest_path dir s"
    using writeToFileV0_appended [of dir s w rest] that by (simp add: appended_def)
  have c: "\<exists>before. files (snd (writeToFileV0 (s # rest) dir w)) (dest_path dir s)
                    = Some (before @ rows_bytes (s # rest))"
    if "no_faults w (dest_path dir s) \<and> length (batch_bytes w dir (s # rest)) \<le> capacity w"
  proof -
    have "files (snd (writeToFileV0 (s # rest) dir w)) (dest_path dir s)
           = Some ((content w (dest_path dir s)
                    @ (if content w (dest_path dir s) = [] then csv_line (header s) else []))
                   @ rows_bytes (s # rest))"
      using writeToFileV0_ok [of w dir s rest] that by (simp add: batch_bytes_def)
    then show ?thesis by blast
  qed
  show ?thesis using dest_path_components [of dir s] a b c by blast
qed

text \<open>
  Claim C6 at a batch that straddles an hour: the first record at 00:57:40, the second
  at 01:57:40. Both rows go to the file of hour 00; the file of hour 01 is not created.
\<close>

theorem destination_from_first_record_witness:
  "id' example_record1 = id' example_record0 \<and> device example_record1 = device example_record0
   \<and> Year (UTC (time example_record1)) = Year (UTC (time example_record0))
   \<and> Month (UTC (time example_record1)) = Month (UTC (time example_record0))
   \<and> Day (UTC (time example_record1)) = Day (UTC (time example_record0))
   \<and> Hour (UTC (time example_record1)) = Hour (UTC (time example_record0))
   \<and> dest_path ''data'' example_record1 = dest_path ''data'' example_record0
   \<and> dest_path ''data'' late_record = late_path
   \<and> late_path \<noteq> dest_path ''data'' example_record0
   \<and> files (snd (writeToFileV0 [example_record0, late_record] ''data'' (fresh_world 4096))) late_path
       = files (fresh_world 4096) late_path
   \<and> no_faults (fresh_world 4096) (dest_path ''data'' example_record0)
   \<and> length (batch_bytes (fresh_world 4096) ''data'' [example_record0, late_record])
       \<le> capacity (fresh_world 4096)
   \<and> (\<exists>before. files (snd (writeToFileV0 [example_record0, late_record] ''data'' (fresh_world 4096)))
                   (dest_path ''data'' example_record0)
                  = Some (before @ rows_bytes [example_record0, late_record]))"
proof -
  have ne: "late_path \<noteq> dest_path ''data'' example_record0"
    by (simp add: example_dest late_path_def example_path_def)
  have nf: "no_faults (fresh_world 4096) (dest_path ''data'' example_record0)"
    by (rule fresh_world_simps)
  have cap: "length (batch_bytes (fresh_world 4096) ''data'' [example_record0, late_record])
       \<le> capacity (fresh_world 4096)"
    by (simp add: batch_bytes_def rows_bytes_def fresh_world_simps example_header example_rows late_row)
  show ?thesis
    using example_same_hour late_dest ne nf cap
      destination_from_first_record [of "''data''" example_record0 example_record1 late_path
        "[late_record]" "fresh_world 4096"]
    by blast
qed

text \<open>
  Claim C7: appending to a destination file that is not empty keeps its bytes as
  a prefix of the new contents, whatever fails; and when nothing fails the new contents
  are the old ones followed by the encoded rows of the batch (no header line), so the
  size grows by the size of these rows.
\<close>

theorem append_keeps_prior_bytes:
  assumes "files w (dest_path dir s) = Some old" and "old \<noteq> []"
  shows "(\<exists>x. files (snd (writeToFileV0 (s # rest) dir w)) (dest_path dir s) = Some (old @ x))
       \<and> (no_faults w (dest_path dir s) \<and> length (rows_bytes (s # rest)) \<le> capacity w \<longrightarrow>
            fst (writeToFileV0 (s # rest) dir w) = None
            \<and> files (snd (writeToFileV0 (s # rest) dir w)) (dest_path dir s)
                = Some (old @ rows_bytes (s # rest))
            \<and> length (content (snd (writeToFileV0 (s # rest) dir w)) (dest_path dir s))
                = length old + length (rows_bytes (s # rest)))"
proof -
  have c: "content w (dest_path dir s) = old" using assms(1) by (simp add: content_def)
  have bb: "batch_bytes w dir (s # rest) = rows_bytes (s # rest)"
    using c assms(2) by (simp add: batch_bytes_def)
  have a: "\<exists>x. files (snd (writeToFileV0 (s # rest) dir w)) (dest_path dir s) = Some (old @ x)"
    using writeToFileV0_appended assms by (rule appended_files)
  have b: "fst (writeToFileV0 (s # rest) dir w) = None
            \<and> files (snd (writeToFileV0 (s # rest) dir w)) (dest_path dir s)
                = Some (old @ rows_bytes (s # rest))
            \<and> length (content (snd (writeToFileV0 (s # rest) dir w)) (dest_path dir s))
                = length old + length (rows_bytes (s # rest))"
    if "no_faults w (dest_path dir s)" and "length (rows_bytes (s # rest)) \<le> capacity w"
  proof -
    have ok: "fst (writeToFileV0 (s # rest) dir w) = None"
      "files (snd (writeToFileV0 (s # rest) dir w)) (dest_path dir s)
         = Some (old @ rows_bytes (s # rest))"
      using writeToFileV0_ok [of w dir s rest] that by (simp_all add: bb c)
    have "content (snd (writeToFileV0 (s # rest) dir w)) (dest_path dir s)
            = old @ rows_bytes (s # rest)"
      unfolding content_def ok(2) by simp
    then show ?thesis using ok by simp
  qed
  show ?thesis using a b by blast
qed

text \<open>
  Claim C7 at the two example records appended to the file that holds a header line.
\<close>

theorem append_keeps_prior_bytes_witness:
  "files existing_world (dest_path ''data'' example_record0)
     = Some ''account,device,time,period,A0,A1\<newline>''
   \<and> ''account,device,time,period,A0,A1\<newline>'' \<noteq> []
   \<and> no_faults existing_world (dest_path ''data'' example_record0)
   \<and> length (rows_bytes [example_record0, example_record1]) \<le> capacity existing_world
   \<and> fst (writeToFileV0 [example_record0, example_record1] ''data'' existing_world) = None
   \<and> files (snd (writeToFileV0 [example_record0, example_record1] ''data'' existing_world))
        (dest_path ''data'' example_record0)
       = Some (''account,device,time,period,A0,A1\<newline>''
               @ rows_bytes [example_record0, example_record1])
   \<and> length (content (snd (writeToFileV0 [example_record0, example_record1] ''data'' existing_world))
               (dest_path ''data'' example_record0))
       = length ''account,device,time,period,A0,A1\<newline>''
         + length (rows_bytes [example_record0, example_record1])"
proof -
  have a: "files existing_world (dest_path ''data'' example_record0)
     = Some ''account,device,time,period,A0,A1\<newline>''"
    by (simp add: example_dest existing_world_simps)
  have b: "''account,device,time,period,A0,A1\<newline>'' \<noteq> []" by simp
  have c: "no_faults existing_world (dest_path ''data'' example_record0)"
    by (rule existing_world_simps)
  have d: "length (rows_bytes [example_record0, example_record1]) \<le> capacity existing_world"
    by (simp add: example_rows_bytes existing_world_simps)
  show ?thesis
    using a b c d append_keeps_prior_bytes [OF a b, of "[example_record1]"] by blast
qed

text \<open>
  Claim C8: for an empty batch the call returns \<^verbatim>\<open>nil\<close> and the world is unchanged:
  no directory is made and no file is opened or written.
\<close>

theorem append_empty_is_noop: "writeToFileV0 [] dir w = (None, w)"
  by (simp add: writeToFileV0_def)

text \<open>
  Claim C9 (an error is returned if and only if a step fails, the final flush
  included) does not hold of the code: the result of \<^verbatim>\<open>writer.Flush()\<close> is ignored. When
  the two example records are appended to a fresh data directory on a device that
  accepts no bytes, the header line and both rows stay in the buffer until the final
  flush, the flush fails, and the call still returns \<^verbatim>\<open>nil\<close>, leaving an empty file.
\<close>

theorem flush_error_is_dropped:
  "fst (writeToFileV0 [example_record0, example_record1] ''data'' (fresh_world 0)) = None
   \<and> files (snd (writeToFileV0 [example_record0, example_record1] ''data'' (fresh_world 0)))
         example_path = Some []"
proof -
  have small: "length (batch_bytes (fresh_world 0) ''data'' [example_record0, example_record1]) \<le> 4096"
    unfolding example_batch by simp
  show ?thesis
    using writeToFileV0_buffered [OF fresh_world_simps(4) small]
    by (simp add: example_dest fresh_world_simps)
qed

text \<open>
  Claim C10: a payload whose sample count field is negative never yields records. When
  the header is complete (at least 33 bytes) the decoder panics at the allocation of the
  sample slice, whatever follows the header; with only 32 bytes it fails before that,
  reading the channel count.
\<close>

theorem negative_sample_count_panics:
  assumes "32 \<le> length body" and "sample_count body <s 0"
  shows "(\<exists>e. decodeV0 body = Inl e)
         \<and> (33 \<le> length body \<longrightarrow> decodeV0 body = Inl MakesliceLenOutOfRange)"
proof (cases "33 \<le> length body")
  case True
  then show ?thesis using decodeV0_header [OF True] assms(2) by simp
next
  case False
  then have "length body < 33" by simp
  then show ?thesis using decodeV0_truncated [of body] False by auto
qed

text \<open>
  Claim C10 at a payload with sample count \<open>-1\<close> and four bytes after the header.
\<close>

theorem negative_sample_count_panics_witness:
  "32 \<le> length negative_count_payload \<and> sample_count negative_count_payload <s 0
   \<and> 33 \<le> length negative_count_payload
   \<and> decodeV0 negative_count_payload = Inl MakesliceLenOutOfRange"
proof -
  have a: "32 \<le> length negative_count_payload"
    by (simp add: negative_count_payload_def)
  have b: "sample_count negative_count_payload <s 0"
    by (simp add: sample_count_def negative_count_payload_def Uint16_def word_sless_alt)
  have c: "33 \<le> length negative_count_payload"
    by (simp add: negative_count_payload_def)
  show ?thesis using a b c negative_sample_count_panics [OF a b] by blast
qed

end
